theory Spec2Isabelle
  imports Complex_Main
begin

section \<open>Python values the acquisition ledger relies on\<close>

text \<open>
  The ledger of \<^verbatim>\<open>LaserSnapV2.py\<close> is a CSV file. \<^verbatim>\<open>csv.writer\<close> stores every cell as
  text (an integer through \<^verbatim>\<open>str\<close>), and \<^verbatim>\<open>csv.reader\<close> gives back rows of strings,
  so a file is modelled as the list of rows the reader yields, each row a list of string cells; a
  blank line is the empty row. Reading the \<^verbatim>\<open>Index\<close> column goes through Python's
  \<^verbatim>\<open>int\<close>, which raises \<^verbatim>\<open>ValueError\<close> on text that is no integer literal.
  A character of a string is a code point below 256.
\<close>

datatype py_error =
    ValueError
  | KeyError string
  | NameError string
  | AssertionError string
  | IndexError
  | OSError

definition is_digit :: "char \<Rightarrow> bool" where
  "is_digit c = (48 \<le> (of_char c :: nat) \<and> (of_char c :: nat) \<le> 57)"

definition digit_val :: "char \<Rightarrow> nat" where
  "digit_val c = of_char c - 48"

definition digit_char :: "nat \<Rightarrow> char" where
  "digit_char d = char_of (48 + d)"

text \<open>\<^verbatim>\<open>str(n)\<close> for a natural number: its decimal digits, most significant first.\<close>

function str_nat :: "nat \<Rightarrow> string" where
  "str_nat n = (if n < 10 then [digit_char n] else str_nat (n div 10) @ [digit_char (n mod 10)])"
  by pat_completeness auto
termination
  by (relation "measure (\<lambda>n. n)") auto

declare str_nat.simps [simp del]

text \<open>
  Python converts between \<^verbatim>\<open>int\<close> and decimal text only up to
  \<^verbatim>\<open>sys.get_int_max_str_digits()\<close> digits, 4300 unless reconfigured, which the program
  does not do: \<^verbatim>\<open>str(i)\<close>, and with it an f-string field and a cell written by
  \<^verbatim>\<open>csv.writer\<close>, raises \<^verbatim>\<open>ValueError\<close> when \<open>i\<close> has more digits.
  \<open>decimal i\<close> is the text, \<open>str_ok i\<close> says that the conversion returns.
\<close>

definition max_str_digits :: nat where
  "max_str_digits = 4300"

definition decimal :: "int \<Rightarrow> string" where
  "decimal i = (if i < 0 then CHR ''-'' # str_nat (nat (- i)) else str_nat (nat i))"

definition str_ok :: "int \<Rightarrow> bool" where
  "str_ok i = (length (str_nat (nat \<bar>i\<bar>)) \<le> max_str_digits)"

definition py_str :: "int \<Rightarrow> py_error + string" where
  "py_str i = (if str_ok i then Inr (decimal i) else Inl ValueError)"

text \<open>
  \<^verbatim>\<open>int(s)\<close> on a string, base 10: surrounding whitespace is stripped, one sign is
  allowed, then at least one digit, with single underscores allowed between digits, and no more
  than 4300 digits, leading zeros counted. The whitespace \<^verbatim>\<open>int\<close> strips is tab, line
  feed, vertical tab, form feed, carriage return and space, and of the code points from 128 on
  the next-line character 133 and the no-break space 160; the separators 28 to 31, which
  \<^verbatim>\<open>str.isspace\<close> accepts, are not stripped.
\<close>

definition is_space :: "char \<Rightarrow> bool" where
  "is_space c = (let k = (of_char c :: nat) in (9 \<le> k \<and> k \<le> 13) \<or> k = 32 \<or> k = 133 \<or> k = 160)"

definition strip :: "string \<Rightarrow> string" where
  "strip s = rev (dropWhile is_space (rev (dropWhile is_space s)))"

fun digs :: "nat \<Rightarrow> string \<Rightarrow> nat option" where
  "digs acc [] = Some acc"
| "digs acc [c] = (if is_digit c then Some (10 * acc + digit_val c) else None)"
| "digs acc (c # d # ds) =
     (if is_digit c then digs (10 * acc + digit_val c) (d # ds)
      else if c = CHR ''_'' \<and> is_digit d then digs (10 * acc + digit_val d) ds
      else None)"

definition parse_digits :: "string \<Rightarrow> nat option" where
  "parse_digits s = (case s of [] \<Rightarrow> None
     | c # cs \<Rightarrow> if is_digit c then digs (digit_val c) cs else None)"

definition py_int :: "string \<Rightarrow> py_error + int" where
  "py_int s =
     (let t = strip s in
      case t of
        [] \<Rightarrow> Inl ValueError
      | c # cs \<Rightarrow>
          if max_str_digits < length (filter is_digit t) then Inl ValueError
          else
            (case (if c = CHR ''-'' then map_option (\<lambda>n. - int n) (parse_digits cs)
                   else if c = CHR ''+'' then map_option int (parse_digits cs)
                   else map_option int (parse_digits t)) of
               None \<Rightarrow> Inl ValueError
             | Some i \<Rightarrow> Inr i))"

section \<open>The ledger file\<close>

type_synonym row = "string list"

text \<open>The file at \<^verbatim>\<open>log_path\<close>: \<open>None\<close> while it does not exist.\<close>

type_synonym ledger_file = "row list option"

definition header :: row where
  "header = [''Index'', ''Wavelength'', ''Picture_Number'', ''Expected_Name'',
             ''Raw_Filename'', ''Status'', ''Timestamp'', ''File_Size_Bytes'']"

definition create_acquisition_log_file :: ledger_file where
  "create_acquisition_log_file = Some [header]"

text \<open>
  The row \<^verbatim>\<open>update_acquisition_log\<close> stores, as \<^verbatim>\<open>csv.writer\<close> writes it, and
  whether the writer can turn its three numbers into text.
\<close>

definition ledger_row ::
  "int \<Rightarrow> string \<Rightarrow> int \<Rightarrow> string \<Rightarrow> string \<Rightarrow> string \<Rightarrow> string \<Rightarrow> int \<Rightarrow> row" where
  "ledger_row index wavelength pic_num expected_name raw_filename status timestamp file_size =
     [decimal index, wavelength, decimal pic_num, expected_name, raw_filename, status, timestamp,
      decimal file_size]"

definition writable :: "int \<Rightarrow> int \<Rightarrow> int \<Rightarrow> bool" where
  "writable index pic_num file_size =
     (case py_str index of
        Inl e \<Rightarrow> False
      | Inr a \<Rightarrow> (case py_str pic_num of
          Inl e \<Rightarrow> False
        | Inr b \<Rightarrow> (case py_str file_size of Inl e \<Rightarrow> False | Inr c \<Rightarrow> True)))"

text \<open>
  The search loop over \<^verbatim>\<open>existing_data[1:]\<close>: the first non-blank row whose first cell
  reads as \<open>index\<close> is overwritten and the loop stops (\<^verbatim>\<open>break\<close>); a first cell
  that is no integer raises before any later row is looked at. The flag is
  \<^verbatim>\<open>entry_found\<close>.
\<close>

fun update_rows :: "int \<Rightarrow> row \<Rightarrow> row list \<Rightarrow> py_error + (bool \<times> row list)" where
  "update_rows index new [] = Inr (False, [])"
| "update_rows index new (r # rs) =
     (if length r > 0 then
        (case py_int (hd r) of
           Inl e \<Rightarrow> Inl e
         | Inr k \<Rightarrow>
             if k = index then Inr (True, new # rs)
             else (case update_rows index new rs of
                     Inl e \<Rightarrow> Inl e
                   | Inr (found, rs') \<Rightarrow> Inr (found, r # rs')))
      else (case update_rows index new rs of
              Inl e \<Rightarrow> Inl e
            | Inr (found, rs') \<Rightarrow> Inr (found, r # rs')))"

text \<open>
  The rows the search loop passes without a match: the rows that stand before the new row when
  the data is written back.
\<close>

fun rows_before :: "int \<Rightarrow> row list \<Rightarrow> row list" where
  "rows_before index [] = []"
| "rows_before index (r # rs) =
     (if length r > 0 \<and> py_int (hd r) = Inr index then [] else r # rows_before index rs)"

text \<open>
  \<^verbatim>\<open>update_acquisition_log\<close>: read the file if it exists, overwrite or append, write
  everything back. \<open>Inl (e, f)\<close> is the exception \<open>e\<close> leaving the function with the file
  \<open>f\<close>. In the search loop that is before the file is reopened for writing, so the file is as it
  was. \<^verbatim>\<open>writerows\<close> writes row by row into the emptied file and raises at the new row
  when one of its numbers has no text, so the file keeps the rows before the new row only. The
  time stamp \<^verbatim>\<open>datetime.now()\<close> is an argument.
\<close>

definition update_acquisition_log ::
  "ledger_file \<Rightarrow> int \<Rightarrow> string \<Rightarrow> int \<Rightarrow> string \<Rightarrow> string \<Rightarrow> string \<Rightarrow> int \<Rightarrow> string
     \<Rightarrow> (py_error \<times> ledger_file) + ledger_file" where
  "update_acquisition_log log_file index wavelength pic_num expected_name raw_filename status
       file_size timestamp =
     (let existing_data = (case log_file of None \<Rightarrow> [] | Some rows \<Rightarrow> rows);
          new = ledger_row index wavelength pic_num expected_name raw_filename status timestamp
                  file_size
      in case update_rows index new (drop 1 existing_data) of
           Inl e \<Rightarrow> Inl (e, log_file)
         | Inr (entry_found, body) \<Rightarrow>
             let updated = take 1 existing_data @ body
             in if \<not> entry_found \<and> existing_data = [] then Inr (Some updated)
                else if writable index pic_num file_size then
                  Inr (Some (if entry_found then updated else updated @ [new]))
                else Inl (ValueError,
                       Some (take 1 existing_data @ rows_before index (drop 1 existing_data))))"

subsection \<open>Reading a ledger\<close>

text \<open>
  The index a data row is found under: the search loop compares \<^verbatim>\<open>int(row[0])\<close>, and
  skips blank rows.
\<close>

definition row_index :: "row \<Rightarrow> int option" where
  "row_index r = (if r = [] then None
     else case py_int (hd r) of Inl e \<Rightarrow> None | Inr k \<Rightarrow> Some k)"

definition readable :: "row \<Rightarrow> bool" where
  "readable r = (r = [] \<or> (case py_int (hd r) of Inl e \<Rightarrow> False | Inr k \<Rightarrow> True))"

fun indices :: "row list \<Rightarrow> int list" where
  "indices [] = []"
| "indices (r # rs) = (case row_index r of None \<Rightarrow> indices rs | Some k \<Rightarrow> k # indices rs)"

definition records_for :: "int \<Rightarrow> row list \<Rightarrow> row list" where
  "records_for index rows = filter (\<lambda>r. row_index r = Some index) rows"

text \<open>
  A ledger file as the specification describes it: the file exists, its first row is the header,
  every data row is blank or starts with an integer, and no two data rows carry the same index.
\<close>

definition well_formed :: "ledger_file \<Rightarrow> bool" where
  "well_formed f = (case f of
       None \<Rightarrow> False
     | Some rows \<Rightarrow> rows \<noteq> [] \<and> hd rows = header \<and> list_all readable (tl rows)
         \<and> distinct (indices (tl rows)))"

text \<open>The arguments of one call of \<^verbatim>\<open>update_acquisition_log\<close> for a given index.\<close>

record upsert_args =
  arg_wavelength :: string
  arg_pic_num :: int
  arg_expected_name :: string
  arg_raw_filename :: string
  arg_status :: string
  arg_file_size :: int
  arg_timestamp :: string

definition upsert ::
  "ledger_file \<Rightarrow> int \<Rightarrow> upsert_args \<Rightarrow> (py_error \<times> ledger_file) + ledger_file" where
  "upsert f index a =
     update_acquisition_log f index (arg_wavelength a) (arg_pic_num a) (arg_expected_name a)
       (arg_raw_filename a) (arg_status a) (arg_file_size a) (arg_timestamp a)"

definition args_row :: "int \<Rightarrow> upsert_args \<Rightarrow> row" where
  "args_row index a =
     ledger_row index (arg_wavelength a) (arg_pic_num a) (arg_expected_name a)
       (arg_raw_filename a) (arg_status a) (arg_timestamp a) (arg_file_size a)"

text \<open>
  The numbers of a call have text: the index, the picture number and the file size have at most
  4300 digits each.
\<close>

definition fits :: "int \<Rightarrow> upsert_args \<Rightarrow> bool" where
  "fits index a = writable index (arg_pic_num a) (arg_file_size a)"

text \<open>Successive calls with one index; an exception ends the sequence.\<close>

fun upsert_calls ::
  "ledger_file \<Rightarrow> int \<Rightarrow> upsert_args list \<Rightarrow> (py_error \<times> ledger_file) + ledger_file" where
  "upsert_calls f index [] = Inr f"
| "upsert_calls f index (a # as) =
     (case upsert f index a of Inl x \<Rightarrow> Inl x | Inr f' \<Rightarrow> upsert_calls f' index as)"

section \<open>The file-arrival watcher\<close>

text \<open>
  \<^verbatim>\<open>wait_for_new_file\<close> sees the raw data folder through \<^verbatim>\<open>os.listdir\<close> and
  \<^verbatim>\<open>os.path.getsize\<close>, and time through \<^verbatim>\<open>time.time\<close> and
  \<^verbatim>\<open>time.sleep\<close>. The folder is a function of a clock in whole seconds that starts at
  0 when the function is entered and advances by what the function sleeps; \<open>None\<close> is the call
  raising. \<open>initial_listing\<close> is the snapshot taken before the loop. The order in which Python
  iterates the set \<^verbatim>\<open>current_files - initial_files\<close> is unspecified; the order of the
  listing stands for it, so every order is some environment.
\<close>

record watcher_env =
  folder_exists :: bool
  initial_listing :: "string list option"
  listdir :: "nat \<Rightarrow> string list option"
  getsize :: "nat \<Rightarrow> string \<Rightarrow> nat option"

definition endswith :: "string \<Rightarrow> string \<Rightarrow> bool" where
  "endswith s suffix =
     (length suffix \<le> length s \<and> drop (length s - length suffix) s = suffix)"

definition new_files :: "string list \<Rightarrow> string list \<Rightarrow> string list" where
  "new_files initial_files current_files =
     remdups (filter (\<lambda>f. f \<notin> set initial_files) current_files)"

datatype scan_result = Accepted string | NoneAccepted nat | Raised nat

text \<open>
  The \<^verbatim>\<open>for new_file in new_files\<close> loop from clock \<open>t\<close>: every \<^verbatim>\<open>.bin\<close>
  candidate costs the two seconds of the stability window; \<open>NoneAccepted\<close> and \<open>Raised\<close>
  carry the clock at which the loop was left.
\<close>

fun scan_new_files :: "watcher_env \<Rightarrow> nat \<Rightarrow> string list \<Rightarrow> scan_result" where
  "scan_new_files env t [] = NoneAccepted t"
| "scan_new_files env t (new_file # rest) =
     (if endswith new_file ''.bin'' then
        (case getsize env t new_file of
           None \<Rightarrow> Raised t
         | Some file_size \<Rightarrow>
             (case getsize env (t + 2) new_file of
                None \<Rightarrow> Raised (t + 2)
              | Some new_size \<Rightarrow>
                  if new_size = file_size \<and> file_size > 0 then Accepted new_file
                  else scan_new_files env (t + 2) rest))
      else scan_new_files env t rest)"

lemma scan_new_files_clock:
  "scan_new_files env t fs = NoneAccepted t' \<or> scan_new_files env t fs = Raised t' \<Longrightarrow> t \<le> t'"
proof (induction fs arbitrary: t)
  case Nil
  then show ?case by simp
next
  case (Cons f fs)
  show ?case
  proof (cases "scan_new_files env t (f # fs) = Raised t \<or> scan_new_files env t (f # fs) = Raised (t + 2)")
    case True
    with Cons.prems show ?thesis by auto
  next
    case False
    with Cons.prems
    have "(scan_new_files env t fs = NoneAccepted t' \<or> scan_new_files env t fs = Raised t')
        \<or> (scan_new_files env (t + 2) fs = NoneAccepted t'
            \<or> scan_new_files env (t + 2) fs = Raised t')"
      by (auto split: if_splits option.splits)
    with Cons.IH [of t] Cons.IH [of "t + 2"] show ?thesis
      by auto
  qed
qed

text \<open>
  The \<^verbatim>\<open>while time.time() - start_time < timeout_seconds\<close> loop: a pass without an
  accepted file sleeps one second, also when it ended in the \<^verbatim>\<open>except\<close> branch.
\<close>

function wait_loop :: "watcher_env \<Rightarrow> string list \<Rightarrow> int \<Rightarrow> nat \<Rightarrow> string option" where
  "wait_loop env initial_files timeout_seconds t =
     (if int t < timeout_seconds then
        (case listdir env t of
           None \<Rightarrow> wait_loop env initial_files timeout_seconds (t + 1)
         | Some current_files \<Rightarrow>
             (case scan_new_files env t (new_files initial_files current_files) of
                Accepted new_file \<Rightarrow> Some new_file
              | NoneAccepted t' \<Rightarrow> wait_loop env initial_files timeout_seconds (t' + 1)
              | Raised t' \<Rightarrow> wait_loop env initial_files timeout_seconds (t' + 1)))
      else None)"
  by pat_completeness auto
termination
proof (relation "measure (\<lambda>(env, initial_files, timeout_seconds, t). nat (timeout_seconds - int t))")
  show "wf (measure (\<lambda>(env, initial_files, timeout_seconds, t). nat (timeout_seconds - int t)))"
    by simp
next
  fix env :: watcher_env and initial_files timeout_seconds t
  assume "int t < timeout_seconds"
  then show "((env, initial_files, timeout_seconds, t + 1), env, initial_files, timeout_seconds, t)
      \<in> measure (\<lambda>(env, initial_files, timeout_seconds, t). nat (timeout_seconds - int t))"
    by simp
next
  fix env :: watcher_env and initial_files timeout_seconds t current_files t'
  assume "int t < timeout_seconds"
    and "scan_new_files env t (new_files initial_files current_files) = NoneAccepted t'"
  then show "((env, initial_files, timeout_seconds, t' + 1), env, initial_files, timeout_seconds, t)
      \<in> measure (\<lambda>(env, initial_files, timeout_seconds, t). nat (timeout_seconds - int t))"
    using scan_new_files_clock [of env t "new_files initial_files current_files" t'] by simp
next
  fix env :: watcher_env and initial_files timeout_seconds t current_files t'
  assume "int t < timeout_seconds"
    and "scan_new_files env t (new_files initial_files current_files) = Raised t'"
  then show "((env, initial_files, timeout_seconds, t' + 1), env, initial_files, timeout_seconds, t)
      \<in> measure (\<lambda>(env, initial_files, timeout_seconds, t). nat (timeout_seconds - int t))"
    using scan_new_files_clock [of env t "new_files initial_files current_files" t'] by simp
qed

declare wait_loop.simps [simp del]

definition wait_for_new_file :: "string \<Rightarrow> watcher_env \<Rightarrow> int \<Rightarrow> py_error + string option" where
  "wait_for_new_file raw_folder env timeout_seconds =
     (if raw_folder = [] \<or> \<not> folder_exists env then Inr None
      else case initial_listing env of
             None \<Rightarrow> Inl OSError
           | Some initial_files \<Rightarrow> Inr (wait_loop env initial_files timeout_seconds 0))"

text \<open>
  No new \<^verbatim>\<open>.bin\<close> file appears before the time-out: every listing taken in time holds
  no such file beyond the initial ones.
\<close>

definition no_new_bin :: "watcher_env \<Rightarrow> string list \<Rightarrow> int \<Rightarrow> bool" where
  "no_new_bin env initial_files timeout_seconds =
     (\<forall>t current_files. int t < timeout_seconds \<longrightarrow> listdir env t = Some current_files
        \<longrightarrow> (\<forall>f \<in> set current_files. endswith f ''.bin'' \<longrightarrow> f \<in> set initial_files))"

section \<open>The acquisition sequencer\<close>

text \<open>
  \<^verbatim>\<open>execute_commands\<close> works on module globals, the devices, the folder and the operator.
  The globals it only reads are a \<open>run_context\<close>; the ones it writes are the \<open>run_state\<close>,
  together with the log file and the sequence of effects performed so far, each effect with the
  log file as it is at that moment. What the outside
  answers is a \<open>world\<close>: the time stamp of a ledger write (by the number of effects before
  it), and per step index the folder the watcher sees, the size read back for the accepted file,
  and the operator's answer to the time-out question. Device and dialog calls are taken to
  return.
\<close>

record log_entry =
  entry_index :: int
  entry_wavelength :: string
  entry_pic_num :: int
  entry_expected_name :: string

datatype event =
    StatusLabel string
  | ShowError string
  | OpenResource
  | TakeSnapshot
  | DeviceWrite string
  | Sleep nat
  | SendTrigger
  | WaitForNewFile int
  | LedgerWrite int string
  | AskYesNo int
  | EnableProcessButton

record run_context =
  ctx_project_name :: string
  ctx_output_path :: string
  ctx_raw_data_folder :: string
  ctx_file_timeout :: int

record world =
  now :: "nat \<Rightarrow> string"
  watch :: "int \<Rightarrow> watcher_env"
  final_size :: "int \<Rightarrow> string \<Rightarrow> nat option"
  askyesno :: "int \<Rightarrow> bool"

type_synonym effect = "event \<times> ledger_file"

record run_state =
  log_file :: ledger_file
  acquisition_log :: "log_entry list"
  trace :: "effect list"
  experiment_finished :: bool

text \<open>An exception leaves with the state reached so far.\<close>

type_synonym 'a result = "(py_error \<times> run_state) + 'a"

definition emit :: "event list \<Rightarrow> run_state \<Rightarrow> run_state" where
  "emit es s = s\<lparr>trace := trace s @ map (\<lambda>e. (e, log_file s)) es\<rparr>"

text \<open>
  One call of \<^verbatim>\<open>update_acquisition_log\<close> on the run's log file. The effect of the write
  is there once the call has returned, with the file as written; an exception leaves the file
  as the call left it.
\<close>

definition log_update ::
  "world \<Rightarrow> run_state \<Rightarrow> int \<Rightarrow> string \<Rightarrow> int \<Rightarrow> string \<Rightarrow> string \<Rightarrow> string \<Rightarrow> int
     \<Rightarrow> run_state result" where
  "log_update w s index wavelength pic_num expected_name raw_filename status file_size =
     (case update_acquisition_log (log_file s) index wavelength pic_num expected_name
             raw_filename status file_size (now w (length (trace s))) of
        Inl (e, f) \<Rightarrow> Inl (e, s\<lparr>log_file := f\<rparr>)
      | Inr f \<Rightarrow> Inr (emit [LedgerWrite index status] (s\<lparr>log_file := f\<rparr>)))"

text \<open>The f-string \<^verbatim>\<open>f"{project_name}_{wavelength}_{i}"\<close>.\<close>

definition expected_name_of :: "string \<Rightarrow> string \<Rightarrow> int \<Rightarrow> py_error + string" where
  "expected_name_of project wavelength i =
     (case py_str i of
        Inl e \<Rightarrow> Inl e
      | Inr number \<Rightarrow> Inr (project @ ''_'' @ wavelength @ ''_'' @ number))"

text \<open>
  The inner loop \<^verbatim>\<open>for i in range(1, num_pictures + 1)\<close> for one plan row, with the
  running \<^verbatim>\<open>acquisition_index\<close>.
\<close>

fun prepopulate ::
  "world \<Rightarrow> run_context \<Rightarrow> string \<Rightarrow> int list \<Rightarrow> run_state \<times> int \<Rightarrow> (run_state \<times> int) result" where
  "prepopulate w c wavelength [] (s, acquisition_index) = Inr (s, acquisition_index)"
| "prepopulate w c wavelength (i # is) (s, acquisition_index) =
     (case expected_name_of (ctx_project_name c) wavelength i of
        Inl e \<Rightarrow> Inl (e, s)
      | Inr expected_name \<Rightarrow>
          let s1 = s\<lparr>acquisition_log := acquisition_log s @
                     [\<lparr>entry_index = acquisition_index, entry_wavelength = wavelength,
                       entry_pic_num = i, entry_expected_name = expected_name\<rparr>]\<rparr>
          in case log_update w s1 acquisition_index wavelength i expected_name [] ''pending'' 0 of
               Inl x \<Rightarrow> Inl x
             | Inr s2 \<Rightarrow> prepopulate w c wavelength is (s2, acquisition_index + 1))"

text \<open>
  The outer loop over the rows of the plan table. A row is the pair of its two cells as text;
  \<^verbatim>\<open>int\<close> of the second cell may raise.
\<close>

fun build_plan ::
  "world \<Rightarrow> run_context \<Rightarrow> (string \<times> string) list \<Rightarrow> run_state \<times> int
     \<Rightarrow> (run_state \<times> int) result" where
  "build_plan w c [] (s, acquisition_index) = Inr (s, acquisition_index)"
| "build_plan w c ((wavelength, cell) # children) (s, acquisition_index) =
     (case py_int cell of
        Inl e \<Rightarrow> Inl (e, s)
      | Inr num_pictures \<Rightarrow>
          (case prepopulate w c wavelength [1..num_pictures] (s, acquisition_index) of
             Inl x \<Rightarrow> Inl x
           | Inr sa \<Rightarrow> build_plan w c children sa))"

text \<open>\<^verbatim>\<open>xs[i:]\<close> for a Python list, a negative start counting from the end.\<close>

definition slice_from :: "int \<Rightarrow> 'a list \<Rightarrow> 'a list" where
  "slice_from i xs = (if i < 0 then drop (nat (int (length xs) + i)) xs else drop (nat i) xs)"

text \<open>The loop that marks the remaining entries cancelled.\<close>

fun cancel_remaining :: "world \<Rightarrow> log_entry list \<Rightarrow> run_state \<Rightarrow> run_state result" where
  "cancel_remaining w [] s = Inr s"
| "cancel_remaining w (remaining_entry # rest) s =
     (case log_update w s (entry_index remaining_entry) (entry_wavelength remaining_entry)
             (entry_pic_num remaining_entry) (entry_expected_name remaining_entry) []
             ''cancelled'' 0 of
        Inl x \<Rightarrow> Inl x
      | Inr s' \<Rightarrow> cancel_remaining w rest s')"

text \<open>
  The label \<^verbatim>\<open>f"Acquiring: {wavelength}nm #{pic_num} ({index + 1}/{len(acquisition_log)})"\<close>
  with its three numbers, and the label of a completed step, whose picture number has been
  turned into text before.
\<close>

definition acquiring_label :: "string \<Rightarrow> int \<Rightarrow> int \<Rightarrow> nat \<Rightarrow> py_error + string" where
  "acquiring_label wavelength pic_num position n =
     (case py_str pic_num of
        Inl e \<Rightarrow> Inl e
      | Inr picture \<Rightarrow>
          (case py_str position of
             Inl e \<Rightarrow> Inl e
           | Inr place \<Rightarrow>
               (case py_str (int n) of
                  Inl e \<Rightarrow> Inl e
                | Inr amount \<Rightarrow>
                    Inr (''Acquiring: '' @ wavelength @ ''nm #'' @ picture
                           @ '' ('' @ place @ ''/'' @ amount @ '')''))))"

definition completed_label :: "log_entry \<Rightarrow> string \<Rightarrow> string" where
  "completed_label entry new_file =
     ''Completed: '' @ entry_wavelength entry @ ''nm #'' @ decimal (entry_pic_num entry)
       @ '' -> '' @ new_file"

text \<open>The effects of one step up to and including the call of the watcher.\<close>

definition begin_step :: "string \<Rightarrow> log_entry \<Rightarrow> run_state \<Rightarrow> run_state" where
  "begin_step label entry s =
     emit [StatusLabel label,
           DeviceWrite (''gowave '' @ entry_wavelength entry), Sleep 5, SendTrigger,
           WaitForNewFile (entry_index entry)] s"

definition if_truthy :: "string option \<Rightarrow> string option" where
  "if_truthy v = (case v of None \<Rightarrow> None | Some f \<Rightarrow> if f = [] then None else Some f)"

text \<open>
  The driver loop \<^verbatim>\<open>for entry in acquisition_log\<close> on the entries still to run.
  \<^verbatim>\<open>if new_file\<close> is Python truthiness: neither \<^verbatim>\<open>None\<close> nor the empty
  string. \<^verbatim>\<open>break\<close> after the cancellation loop ends the function's loop. A step whose
  label cannot be built raises before any effect of the step.
\<close>

fun run_steps :: "world \<Rightarrow> run_context \<Rightarrow> log_entry list \<Rightarrow> run_state \<Rightarrow> run_state result" where
  "run_steps w c [] s = Inr s"
| "run_steps w c (entry # rest) s =
     (let index = entry_index entry
      in case acquiring_label (entry_wavelength entry) (entry_pic_num entry) (index + 1)
                (length (acquisition_log s)) of
           Inl e \<Rightarrow> Inl (e, s)
         | Inr label \<Rightarrow>
             let s1 = begin_step label entry s
             in case wait_for_new_file (ctx_raw_data_folder c) (watch w index)
                       (ctx_file_timeout c) of
                  Inl e \<Rightarrow> Inl (e, s1)
                | Inr found \<Rightarrow>
                    (case if_truthy found of
                       Some new_file \<Rightarrow>
                         (case final_size w index new_file of
                            None \<Rightarrow> Inl (OSError, s1)
                          | Some file_size \<Rightarrow>
                              (case log_update w s1 index (entry_wavelength entry)
                                      (entry_pic_num entry) (entry_expected_name entry) new_file
                                      ''completed'' (int file_size) of
                                 Inl x \<Rightarrow> Inl x
                               | Inr s2 \<Rightarrow>
                                   run_steps w c rest
                                     (emit [StatusLabel (completed_label entry new_file)] s2)))
                     | None \<Rightarrow>
                         (case log_update w s1 index (entry_wavelength entry)
                                 (entry_pic_num entry) (entry_expected_name entry) []
                                 ''timeout'' 0 of
                            Inl x \<Rightarrow> Inl x
                          | Inr s2 \<Rightarrow>
                              let s3 = emit [AskYesNo index] s2
                              in if askyesno w index then run_steps w c rest s3
                                 else cancel_remaining w
                                        (slice_from (index + 1) (acquisition_log s3)) s3)))"

text \<open>
  \<^verbatim>\<open>execute_commands\<close>. The context holds the project name and output path as they are
  once the project dialog, if it was shown, has closed. The log file is a new file, named after
  the project and the time.
\<close>

definition execute_commands ::
  "world \<Rightarrow> run_context \<Rightarrow> (string \<times> string) list \<Rightarrow> run_state \<Rightarrow> run_state result" where
  "execute_commands w c tree s =
     (if ctx_raw_data_folder c = [] then
        Inr (emit [ShowError ''Please select the Golden Eye raw data folder first!''] s)
      else if ctx_project_name c = [] \<or> ctx_output_path c = [] then Inr s
      else
        (case build_plan w c tree
                (s\<lparr>acquisition_log := [], log_file := create_acquisition_log_file\<rparr>, 0) of
           Inl x \<Rightarrow> Inl x
         | Inr (s1, acquisition_index) \<Rightarrow>
             (case run_steps w c (acquisition_log s1) (emit [OpenResource, TakeSnapshot] s1) of
                Inl x \<Rightarrow> Inl x
              | Inr s2 \<Rightarrow>
                  Inr (emit [EnableProcessButton, StatusLabel ''Acquisition complete!'']
                         (s2\<lparr>experiment_finished := True\<rparr>)))))"

subsection \<open>What the expansion of a plan is measured against\<close>

text \<open>The number a plan row's second cell stands for, and the steps of a plan in order.\<close>

definition shot_count :: "string \<Rightarrow> int" where
  "shot_count cell = (case py_int cell of Inl e \<Rightarrow> 0 | Inr n \<Rightarrow> n)"

definition positive_count :: "string \<Rightarrow> bool" where
  "positive_count cell = (case py_int cell of Inl e \<Rightarrow> False | Inr n \<Rightarrow> 0 < n)"

definition expand :: "(string \<times> string) list \<Rightarrow> (string \<times> int) list" where
  "expand tree = concat (map (\<lambda>(wavelength, cell). map (\<lambda>i. (wavelength, i)) [1..shot_count cell]) tree)"

definition pending_row :: "log_entry \<Rightarrow> string \<Rightarrow> row" where
  "pending_row e timestamp =
     ledger_row (entry_index e) (entry_wavelength e) (entry_pic_num e) (entry_expected_name e) []
       ''pending'' timestamp 0"

text \<open>The status cell of a data row, and the columns of a row other than its time stamp.\<close>

definition status_of :: "row \<Rightarrow> string" where
  "status_of r = r ! 5"

text \<open>
  What holds of the state between two pre-population steps: the running index is the number of
  entries, the entries are numbered from 0, their numbers have text, and the log file holds the
  header and one pending row per entry.
\<close>

definition log_inv :: "run_state \<Rightarrow> int \<Rightarrow> bool" where
  "log_inv s ai = (ai = int (length (acquisition_log s))
     \<and> map entry_index (acquisition_log s) = map int [0..<length (acquisition_log s)]
     \<and> list_all (\<lambda>e. str_ok (entry_index e) \<and> str_ok (entry_pic_num e)) (acquisition_log s)
     \<and> (\<exists>tss. length tss = length (acquisition_log s)
           \<and> log_file s = Some (header # map2 pending_row (acquisition_log s) tss)))"

subsection \<open>What a run is measured against\<close>

text \<open>
  How the step with a given index ends, read off the world: the watcher returns a file and its
  size can be read, or the watcher returns nothing, or one of the two calls raises.
\<close>

datatype step_outcome = Completes string nat | TimesOut | Fails

definition step_outcome :: "world \<Rightarrow> run_context \<Rightarrow> int \<Rightarrow> step_outcome" where
  "step_outcome w c index =
     (case wait_for_new_file (ctx_raw_data_folder c) (watch w index) (ctx_file_timeout c) of
        Inl e \<Rightarrow> Fails
      | Inr found \<Rightarrow>
          (case if_truthy found of
             None \<Rightarrow> TimesOut
           | Some new_file \<Rightarrow>
               (case final_size w index new_file of
                  None \<Rightarrow> Fails
                | Some file_size \<Rightarrow> Completes new_file file_size)))"

text \<open>
  The loop goes on to the next step: a file arrived, of a size the ledger can take as text, or
  the operator said yes.
\<close>

definition continues :: "world \<Rightarrow> run_context \<Rightarrow> int \<Rightarrow> bool" where
  "continues w c index =
     (case step_outcome w c index of
        Completes new_file file_size \<Rightarrow> str_ok (int file_size)
      | TimesOut \<Rightarrow> askyesno w index
      | Fails \<Rightarrow> False)"

definition recorded_status :: "world \<Rightarrow> run_context \<Rightarrow> int \<Rightarrow> string" where
  "recorded_status w c index =
     (case step_outcome w c index of
        Completes new_file file_size \<Rightarrow> ''completed''
      | TimesOut \<Rightarrow> ''timeout''
      | Fails \<Rightarrow> ''pending'')"

text \<open>The data rows of a log file are numbered 0, 1, ... in order.\<close>

definition indexed_rows :: "row list \<Rightarrow> bool" where
  "indexed_rows rows = (map row_index rows = map (\<lambda>j. Some (int j)) [0..<length rows])"

text \<open>
  The status a log file holds for an index: the status cell of the one data row found under
  that index; none when the file holds no such row, or more than one. A step's outcome is in the
  file when that status is completed or timeout.
\<close>

definition recorded :: "ledger_file \<Rightarrow> int \<Rightarrow> string option" where
  "recorded f index =
     (case f of
        None \<Rightarrow> None
      | Some rows \<Rightarrow>
          (case records_for index (drop 1 rows) of
             [] \<Rightarrow> None
           | r # others \<Rightarrow> if others = [] then Some (status_of r) else None))"

definition outcome_in :: "ledger_file \<Rightarrow> int \<Rightarrow> bool" where
  "outcome_in f index = (recorded f index = Some ''completed'' \<or> recorded f index = Some ''timeout'')"

text \<open>
  What holds of the state between two steps of the driver loop, \<open>j\<close> steps done: the log
  file holds one row per entry, in order, and the rows of the steps done have status completed
  or timeout.
\<close>

definition run_inv :: "log_entry list \<Rightarrow> nat \<Rightarrow> run_state \<Rightarrow> bool" where
  "run_inv es j s = (acquisition_log s = es \<and> map entry_index es = map int [0..<length es]
     \<and> (\<exists>rows. log_file s = Some (header # rows) \<and> indexed_rows rows \<and> length rows = length es
           \<and> list_all (\<lambda>i. status_of (rows ! i) = ''completed'' \<or> status_of (rows ! i) = ''timeout'')
                 [0..<j]))"

text \<open>
  Two effects that follow one another respect the order of recording and deciding: the operator
  is asked about a step only right after that step's time-out has been written to the ledger,
  and the return of the watcher is followed by nothing but the ledger write of that step's
  outcome.
\<close>

definition outcome_first :: "event \<Rightarrow> event \<Rightarrow> bool" where
  "outcome_first a b =
     ((case b of AskYesNo index \<Rightarrow> a = LedgerWrite index ''timeout'' | _ \<Rightarrow> True)
      \<and> (case a of
            WaitForNewFile index \<Rightarrow>
              b = LedgerWrite index ''completed'' \<or> b = LedgerWrite index ''timeout''
          | _ \<Rightarrow> True))"

definition is_ask :: "event \<Rightarrow> bool" where
  "is_ask e = (case e of AskYesNo index \<Rightarrow> True | _ \<Rightarrow> False)"

definition is_wait :: "event \<Rightarrow> bool" where
  "is_wait e = (case e of WaitForNewFile index \<Rightarrow> True | _ \<Rightarrow> False)"

definition is_device_command :: "event \<Rightarrow> bool" where
  "is_device_command e = (case e of DeviceWrite cmd \<Rightarrow> True | SendTrigger \<Rightarrow> True | _ \<Rightarrow> False)"

text \<open>The state a run ends in, whether it returns or raises.\<close>

definition final_state :: "run_state result \<Rightarrow> run_state" where
  "final_state r = (case r of Inl (e, s) \<Rightarrow> s | Inr s \<Rightarrow> s)"

definition plan_state :: "(run_state \<times> int) result \<Rightarrow> run_state" where
  "plan_state r = (case r of Inl (e, s) \<Rightarrow> s | Inr (s, n) \<Rightarrow> s)"

text \<open>An effect that is neither the operator question nor the return of the watcher.\<close>

definition quiet :: "event \<Rightarrow> bool" where
  "quiet e = (\<not> is_ask e \<and> \<not> is_wait e)"

text \<open>
  A stretch of effects in which recording comes before deciding, and which does not open with
  the operator question; and a stretch that does not end on the return of the watcher.
\<close>

definition ordered_effects :: "event list \<Rightarrow> bool" where
  "ordered_effects tr = (successively outcome_first tr \<and> (tr = [] \<or> \<not> is_ask (hd tr)))"

definition settled :: "event list \<Rightarrow> bool" where
  "settled tr = (tr = [] \<or> \<not> is_wait (last tr))"

text \<open>
  An effect of the trace agrees with the file it comes with: a ledger write is in the file, and
  the operator is asked with the time-out in the file. \<open>watched\<close> are the steps whose watcher
  has returned in a stretch of effects, and \<open>kept_from ks\<close> says that every effect comes with
  a file holding the outcome of the steps \<open>ks\<close> and of every step whose watcher has returned
  earlier in the stretch.
\<close>

definition in_file :: "effect \<Rightarrow> bool" where
  "in_file x = (case fst x of
       LedgerWrite index status \<Rightarrow> recorded (snd x) index = Some status
     | AskYesNo index \<Rightarrow> recorded (snd x) index = Some ''timeout''
     | _ \<Rightarrow> True)"

fun watched :: "effect list \<Rightarrow> int list" where
  "watched [] = []"
| "watched (x # tr) = (case fst x of WaitForNewFile index \<Rightarrow> index # watched tr | _ \<Rightarrow> watched tr)"

fun kept_from :: "int list \<Rightarrow> effect list \<Rightarrow> bool" where
  "kept_from ks [] = True"
| "kept_from ks (x # tr) = (list_all (outcome_in (snd x)) ks \<and> kept_from (ks @ watched [x]) tr)"

section \<open>Loading the incomplete acquisitions of a ledger\<close>

text \<open>
  \<^verbatim>\<open>load_acquisition_from_csv\<close> reads the file through \<^verbatim>\<open>csv.DictReader\<close>: the
  first row gives the field names, blank rows are skipped, and a row becomes a dictionary in
  which a later field of the same name wins and a field beyond the end of the row holds
  \<^verbatim>\<open>None\<close>. \<open>dict_lookup fieldnames r key\<close> is \<^verbatim>\<open>row[key]\<close>: \<open>None\<close> when the
  key is no field (\<^verbatim>\<open>KeyError\<close>), \<open>Some None\<close> when its value is \<^verbatim>\<open>None\<close>.
\<close>

fun dict_lookup :: "row \<Rightarrow> row \<Rightarrow> string \<Rightarrow> string option option" where
  "dict_lookup [] r key = None"
| "dict_lookup (f # fs) r key =
     (case dict_lookup fs (tl r) key of
        Some v \<Rightarrow> Some v
      | None \<Rightarrow>
          if f = key then Some (case r of [] \<Rightarrow> None | cell # cells \<Rightarrow> Some cell) else None)"

text \<open>
  \<^verbatim>\<open>wavelength_dict\<close> keeps its keys in the order of first insertion; a key is the
  wavelength cell, or \<^verbatim>\<open>None\<close>.
\<close>

type_synonym wavelength_dict = "(string option \<times> nat) list"

fun increment :: "string option \<Rightarrow> wavelength_dict \<Rightarrow> wavelength_dict" where
  "increment k [] = [(k, 1)]"
| "increment k ((k', n) # d) = (if k' = k then (k', n + 1) # d else (k', n) # increment k d)"

definition incomplete_statuses :: "string list" where
  "incomplete_statuses = [''pending'', ''timeout'', ''cancelled'']"

fun count_rows :: "row \<Rightarrow> row list \<Rightarrow> wavelength_dict \<Rightarrow> py_error + wavelength_dict" where
  "count_rows fieldnames [] d = Inr d"
| "count_rows fieldnames (r # rs) d =
     (if r = [] then count_rows fieldnames rs d
      else case dict_lookup fieldnames r ''Status'' of
             None \<Rightarrow> Inl (KeyError ''Status'')
           | Some status \<Rightarrow>
               if (case status of None \<Rightarrow> False | Some st \<Rightarrow> st \<in> set incomplete_statuses) then
                 (case dict_lookup fieldnames r ''Wavelength'' of
                    None \<Rightarrow> Inl (KeyError ''Wavelength'')
                  | Some wavelength \<Rightarrow> count_rows fieldnames rs (increment wavelength d))
               else count_rows fieldnames rs d)"

text \<open>
  The outcome of the function. The operator may close the file dialog without a choice; otherwise
  the plan table is emptied and, when the dictionary is not empty, filled with one row per item
  of the dictionary. An exception inside the \<^verbatim>\<open>try\<close> block, a file that cannot be opened
  among them, ends in the error dialog.
\<close>

datatype load_outcome =
    NotSelected
  | Loaded wavelength_dict
  | NothingIncomplete
  | LoadFailed py_error

definition load_acquisition_from_csv :: "ledger_file option \<Rightarrow> load_outcome" where
  "load_acquisition_from_csv csv_file =
     (case csv_file of
        None \<Rightarrow> NotSelected
      | Some None \<Rightarrow> LoadFailed OSError
      | Some (Some rows) \<Rightarrow>
          (case (case rows of [] \<Rightarrow> Inr [] | fieldnames # body \<Rightarrow> count_rows fieldnames body []) of
             Inl e \<Rightarrow> LoadFailed e
           | Inr wavelength_dict \<Rightarrow>
               if wavelength_dict = [] then NothingIncomplete else Loaded wavelength_dict))"

text \<open>
  The rows of a ledger that are not completed, by their \<^verbatim>\<open>Status\<close> cell, and how many of
  them carry a given wavelength.
\<close>

definition incomplete :: "row list \<Rightarrow> row list" where
  "incomplete body = filter (\<lambda>r. 5 < length r \<and> r ! 5 \<in> set incomplete_statuses) body"

definition incomplete_count :: "row list \<Rightarrow> string option \<Rightarrow> nat" where
  "incomplete_count body k = length (filter (\<lambda>r. Some (r ! 1) = k) (incomplete body))"

definition count_of :: "wavelength_dict \<Rightarrow> string option \<Rightarrow> nat" where
  "count_of d k = (case map_of d k of None \<Rightarrow> 0 | Some n \<Rightarrow> n)"

section \<open>The cube aggregator\<close>

text \<open>
  A cube is a numpy array: its shape (rows, columns, bands) and its cells. The cells are real
  numbers; the rounding of the floating-point cells of the program is not part of the model.
  The arrays live in a store, a list addressed by position, since \<^verbatim>\<open>loaded_cubes\<close> and the
  accumulator of a combine operation may refer to the same array. Calls into the imaging
  libraries are taken to return; what they write is recorded as an artifact holding the cell
  values written.
\<close>

record cube =
  shape :: "nat \<times> nat \<times> nat"
  cells :: "real list"

text \<open>An entry of \<^verbatim>\<open>loaded_cubes\<close>: the array by reference, and what came with it.\<close>

record loaded_cube =
  cube_ref :: nat
  cube_metadata :: string
  cube_wavelength :: string
  cube_i :: string
  cube_rgb_image :: string

datatype artifact =
    SavedRGB string cube
  | SavedImage string cube string
  | Popup string nat string
  | ErrorBox string

record aggregator_state =
  store :: "cube list"
  loaded_cubes :: "loaded_cube list"
  selected_images :: "nat list"
  outputs :: "artifact list"

type_synonym 'a combined = "(py_error \<times> aggregator_state) + 'a"

text \<open>\<^verbatim>\<open>a += b\<close> on arrays of one shape: the cells of \<open>a\<close> are replaced, in place.\<close>

definition add_cubes :: "cube \<Rightarrow> cube \<Rightarrow> cube" where
  "add_cubes a b = a\<lparr>cells := map2 (+) (cells a) (cells b)\<rparr>"

definition divide_cube :: "cube \<Rightarrow> nat \<Rightarrow> cube" where
  "divide_cube a n = a\<lparr>cells := map (\<lambda>x. x / real n) (cells a)\<rparr>"

definition iadd :: "nat \<Rightarrow> nat \<Rightarrow> cube list \<Rightarrow> cube list" where
  "iadd target source st = st[target := add_cubes (st ! target) (st ! source)]"

definition sum_message :: string where
  "sum_message = ''Cubes must have the same dimensions for summing.''"

definition average_message :: string where
  "average_message = ''Cubes must have the same dimensions for averaging.''"

text \<open>The two preview files, by their names inside \<^verbatim>\<open>SAVED_IMAGES_DIRECTORY\<close>.\<close>

definition summed_rgb_image :: string where
  "summed_rgb_image = ''summed_rgb_image.png''"

definition averaged_rgb_image :: string where
  "averaged_rgb_image = ''averaged_rgb_image.png''"

text \<open>
  The loop of \<^verbatim>\<open>sum_selected_cubes\<close>. The accumulator is \<^verbatim>\<open>combined_cube\<close> with
  \<^verbatim>\<open>first_hdr_metadata\<close>, \<open>None\<close> before the first cube; \<^verbatim>\<open>combined_cube = cube_data\<close>
  makes it the first selected array itself.
\<close>

fun sum_loop ::
  "nat list \<Rightarrow> (nat \<times> string) option \<Rightarrow> aggregator_state
     \<Rightarrow> ((nat \<times> string) option \<times> aggregator_state) combined" where
  "sum_loop [] acc s = Inr (acc, s)"
| "sum_loop (idx # rest) acc s =
     (if idx < length (loaded_cubes s) then
        (let cube_data = cube_ref (loaded_cubes s ! idx)
         in case acc of
              None \<Rightarrow> sum_loop rest (Some (cube_data, cube_metadata (loaded_cubes s ! idx))) s
            | Some (combined_cube, first_hdr_metadata) \<Rightarrow>
                if shape (store s ! combined_cube) = shape (store s ! cube_data) then
                  sum_loop rest acc (s\<lparr>store := iadd combined_cube cube_data (store s)\<rparr>)
                else Inl (AssertionError sum_message, s))
      else Inl (IndexError, s))"

definition sum_selected_cubes :: "aggregator_state \<Rightarrow> aggregator_state combined" where
  "sum_selected_cubes s =
     (if selected_images s = [] then
        Inr (s\<lparr>outputs := outputs s @ [ErrorBox ''No images selected for summing.'']\<rparr>)
      else case sum_loop (selected_images s) None s of
             Inl x \<Rightarrow> Inl x
           | Inr (None, s') \<Rightarrow>
               Inr (s'\<lparr>outputs := outputs s' @ [ErrorBox ''Could not sum the selected cubes.'']\<rparr>)
           | Inr (Some (combined_cube, first_hdr_metadata), s') \<Rightarrow>
               Inr (s'\<lparr>outputs := outputs s' @
                      [SavedRGB summed_rgb_image (store s' ! combined_cube),
                       Popup summed_rgb_image combined_cube first_hdr_metadata]\<rparr>))"

text \<open>
  The loop of \<^verbatim>\<open>average_selected_cubes\<close>, with \<^verbatim>\<open>cube_count\<close>:
  \<^verbatim>\<open>cube_data.copy()\<close> allocates a new array for the accumulator.
\<close>

fun average_loop ::
  "nat list \<Rightarrow> (nat \<times> string) option \<Rightarrow> nat \<Rightarrow> aggregator_state
     \<Rightarrow> ((nat \<times> string) option \<times> nat \<times> aggregator_state) combined" where
  "average_loop [] acc cube_count s = Inr (acc, cube_count, s)"
| "average_loop (idx # rest) acc cube_count s =
     (if idx < length (loaded_cubes s) then
        (let cube_data = cube_ref (loaded_cubes s ! idx)
         in case acc of
              None \<Rightarrow>
                average_loop rest
                  (Some (length (store s), cube_metadata (loaded_cubes s ! idx)))
                  (cube_count + 1) (s\<lparr>store := store s @ [store s ! cube_data]\<rparr>)
            | Some (combined_cube, first_hdr_metadata) \<Rightarrow>
                if shape (store s ! combined_cube) = shape (store s ! cube_data) then
                  average_loop rest acc (cube_count + 1)
                    (s\<lparr>store := iadd combined_cube cube_data (store s)\<rparr>)
                else Inl (AssertionError average_message, s))
      else Inl (IndexError, s))"

definition average_selected_cubes :: "aggregator_state \<Rightarrow> aggregator_state combined" where
  "average_selected_cubes s =
     (if selected_images s = [] then
        Inr (s\<lparr>outputs := outputs s @ [ErrorBox ''No images selected for averaging.'']\<rparr>)
      else case average_loop (selected_images s) None 0 s of
             Inl x \<Rightarrow> Inl x
           | Inr (Some (combined_cube, first_hdr_metadata), cube_count, s') \<Rightarrow>
               if cube_count > 0 then
                 Inr (s'\<lparr>store := store s' @ [divide_cube (store s' ! combined_cube) cube_count],
                         outputs := outputs s' @
                           [SavedRGB averaged_rgb_image
                              (divide_cube (store s' ! combined_cube) cube_count),
                            Popup averaged_rgb_image (length (store s')) first_hdr_metadata]\<rparr>)
               else Inr (s'\<lparr>outputs := outputs s' @
                           [ErrorBox ''Could not average the selected cubes.'']\<rparr>)
           | Inr (None, cube_count, s') \<Rightarrow>
               Inr (s'\<lparr>outputs := outputs s' @
                      [ErrorBox ''Could not average the selected cubes.'']\<rparr>))"

subsection \<open>Per-wavelength batch mode\<close>











subsection \<open>What a combine operation is measured against\<close>


text \<open>
  Every selected index is an entry of \<^verbatim>\<open>loaded_cubes\<close>, and the entry refers to an array
  of the store.
\<close>

definition valid_selection :: "aggregator_state \<Rightarrow> bool" where
  "valid_selection s =
     (\<forall>idx \<in> set (selected_images s).
        idx < length (loaded_cubes s) \<and> cube_ref (loaded_cubes s ! idx) < length (store s))"






section \<open>The resume path\<close>

text \<open>
  Python looks a global name up when the statement that uses it runs: in the module's globals,
  then in the builtins, and raises \<^verbatim>\<open>NameError\<close> when it is in neither.
  \<open>module_globals\<close> lists every name the module can bind globally: the names it imports,
  assigns or defines at top level, and the names its functions declare \<^verbatim>\<open>global\<close>. None of
  the names looked up below is a builtin.
\<close>

definition module_globals :: "string list" where
  "module_globals =
    [''os'', ''shutil'', ''time'', ''datetime'', ''csv'', ''threading'', ''Path'', ''tk'',
     ''ttk'', ''filedialog'', ''messagebox'', ''pyvisa'', ''serial'', ''envi'', ''spy'',
     ''Image'', ''ImageTk'', ''ImageOps'', ''logging'', ''np'', ''SAVED_IMAGES_DIRECTORY'',
     ''before_snapshot'', ''loaded_cubes'', ''loaded_images'', ''selected_images'',
     ''available_wavelengths'', ''experiment_finished'', ''project_name'', ''output_path'',
     ''raw_data_folder'', ''tls_found'', ''golden_eye_found'', ''tls_device_address'',
     ''arduino_port'', ''trigger_string'', ''acquisition_log'', ''file_timeout'',
     ''acquisition_log_path'', ''sort_folders_by_modification'',
     ''create_acquisition_log_file'', ''update_acquisition_log'', ''wait_for_new_file'',
     ''update_status_label'', ''load_acquisition_from_csv'', ''select_raw_data_folder'',
     ''load_folder'', ''process_folder'', ''check_tls_device'', ''check_arduino_device'',
     ''find_tls'', ''find_golden_eye'', ''check_device_status'', ''send_trigger'',
     ''sum_selected_cubes'', ''average_selected_cubes'', ''add_cubes_for_same_wavelength'',
     ''save_rgb'', ''save_rgb_image'', ''save_cube'', ''save_averaged_cube'',
     ''execute_commands'', ''resume_acquisition'', ''execute_resumed_commands'',
     ''process_results'', ''add_row'', ''edit_selected_row'', ''delete_selected_row'',
     ''toggle_image_selection'', ''filter_images'', ''view_selected_cubes'',
     ''select_by_wavelength'', ''update_selection_ui'', ''update_wavelength_filters'',
     ''show_combined_image_popup'', ''show_averaged_image_popup'', ''take_snapshot'',
     ''open_project_window'', ''rename_and_copy_folders'', ''create_right_click_menu'',
     ''show_popup_menu'', ''setup_acquisition_tab'', ''setup_processing_tab'',
     ''resize_canvas'', ''main'', ''monitoring_thread'', ''stop_monitoring'',
     ''current_acquisition_index'', ''last_file_time'', ''tree'', ''wavelength_entry'',
     ''pictures_entry'', ''tls_status_label'', ''golden_eye_status_label'',
     ''execute_button'', ''process_button'', ''find_tls_button'', ''find_golden_eye_button'',
     ''right_click_menu'', ''raw_folder_label'', ''acquisition_status_label'',
     ''load_csv_button'', ''wavelength_filter'', ''wavelength_select_combobox'',
     ''sum_cubes_button'', ''average_cubes_button'', ''view_selected_button'',
     ''image_panel_frame'', ''canvas'', ''progress_label'', ''root'']"

text \<open>
  Calling the global \<open>name\<close>: \<open>result\<close> is what the call would give if the name were
  bound.
\<close>

definition call_global :: "string \<Rightarrow> 'a \<Rightarrow> py_error + 'a" where
  "call_global name result =
     (if name \<in> set module_globals then Inr result else Inl (NameError name))"

text \<open>
  What the operator and the called functions would answer: the folder chosen in the dialog
  (empty when the dialog is cancelled), the summary \<^verbatim>\<open>check_previous_acquisition\<close> would
  return (total, completed, incomplete and the log path; \<open>None\<close> for a falsy value), and the
  answer to the resume question.
\<close>

record resume_world =
  chosen_folder :: string
  previous_acquisition :: "(int \<times> int \<times> int \<times> string) option"
  resume_answer :: bool

datatype resume_outcome =
    NoFolderChosen
  | NothingToResume
  | ResumeDeclined
  | RawFolderMissing
  | Resumed "event list"

text \<open>The effects of the command loop of \<^verbatim>\<open>execute_resumed_commands\<close>.\<close>

fun resumed_commands :: "nat \<Rightarrow> nat \<Rightarrow> log_entry list \<Rightarrow> py_error + event list" where
  "resumed_commands i n [] = Inr []"
| "resumed_commands i n (entry # rest) =
     (case acquiring_label (entry_wavelength entry) (entry_pic_num entry) (int i + 1) n of
        Inl e \<Rightarrow> Inl e
      | Inr label \<Rightarrow>
          (case resumed_commands (i + 1) n rest of
             Inl e \<Rightarrow> Inl e
           | Inr effects \<Rightarrow>
               Inr ([StatusLabel label, DeviceWrite (''gowave '' @ entry_wavelength entry),
                     Sleep 5, SendTrigger, Sleep 20] @ effects)))"

text \<open>
  \<^verbatim>\<open>execute_resumed_commands\<close>: the thread is created with
  \<^verbatim>\<open>target=monitor_raw_files\<close>, which looks that name up.
\<close>

definition execute_resumed_commands :: "string \<Rightarrow> log_entry list \<Rightarrow> py_error + resume_outcome" where
  "execute_resumed_commands raw_folder entries =
     (if raw_folder = [] then Inr RawFolderMissing
      else case call_global ''monitor_raw_files'' () of
             Inl e \<Rightarrow> Inl e
           | Inr u \<Rightarrow>
               (case resumed_commands 0 (length entries) entries of
                  Inl e \<Rightarrow> Inl e
                | Inr effects \<Rightarrow>
                    Inr (Resumed ([OpenResource] @ effects
                           @ [EnableProcessButton, StatusLabel ''Resumed acquisition complete!'']))))"

definition resume_acquisition ::
  "resume_world \<Rightarrow> string \<Rightarrow> log_entry list \<Rightarrow> py_error + resume_outcome" where
  "resume_acquisition w raw_folder entries =
     (if chosen_folder w = [] then Inr NoFolderChosen
      else case call_global ''check_previous_acquisition'' (previous_acquisition w) of
             Inl e \<Rightarrow> Inl e
           | Inr None \<Rightarrow> Inr NothingToResume
           | Inr (Some prev_acq) \<Rightarrow>
               if resume_answer w then
                 (case call_global ''resume_from_log'' () of
                    Inl e \<Rightarrow> Inl e
                  | Inr u \<Rightarrow> execute_resumed_commands raw_folder entries)
               else Inr ResumeDeclined)"

section \<open>A run to evaluate\<close>

text \<open>
  The scenario of the specification: the plan \<open>[(500, 2), (600, 1)]\<close> with a file time-out of
  five seconds; the camera writes a file in steps 0 and 2 and none in step 1, and the operator
  answers the time-out question with \<open>answer\<close>.
\<close>

definition demo_plan :: "(string \<times> string) list" where
  "demo_plan = [(''500'', ''2''), (''600'', ''1'')]"

definition demo_context :: run_context where
  "demo_context = \<lparr>ctx_project_name = ''p'', ctx_output_path = ''out'',
     ctx_raw_data_folder = ''raw'', ctx_file_timeout = 5\<rparr>"

definition quiet_folder :: watcher_env where
  "quiet_folder = \<lparr>folder_exists = True, initial_listing = Some [''old.bin''],
     listdir = (\<lambda>t. Some [''old.bin'', ''notes.txt'']),
     getsize = (\<lambda>t f. Some 7)\<rparr>"

definition arriving_folder :: watcher_env where
  "arriving_folder = \<lparr>folder_exists = True, initial_listing = Some [''old.bin''],
     listdir = (\<lambda>t. if t < 1 then Some [''old.bin''] else Some [''old.bin'', ''new.bin'']),
     getsize = (\<lambda>t f. if f = ''new.bin'' then Some (if t < 2 then 4 else 12) else Some 7)\<rparr>"

definition demo_world :: "bool \<Rightarrow> world" where
  "demo_world answer = \<lparr>now = (\<lambda>n. ''t'' @ decimal (int n)),
     watch = (\<lambda>index. if index = 1 then quiet_folder else arriving_folder),
     final_size = (\<lambda>index f. Some 12),
     askyesno = (\<lambda>index. answer)\<rparr>"

definition initial_state :: run_state where
  "initial_state = \<lparr>log_file = None, acquisition_log = [], trace = [], experiment_finished = False\<rparr>"

subsection \<open>Cubes to evaluate\<close>

definition cube_a :: cube where
  "cube_a = \<lparr>shape = (1, 1, 30), cells = replicate 30 1\<rparr>"

definition cube_b :: cube where
  "cube_b = \<lparr>shape = (1, 1, 30), cells = replicate 30 2\<rparr>"

definition cube_c :: cube where
  "cube_c = \<lparr>shape = (2, 1, 30), cells = replicate 60 4\<rparr>"

text \<open>Three loaded cubes, the first two selected; and the same with all three selected.\<close>

definition demo_loaded :: "loaded_cube list" where
  "demo_loaded =
     [\<lparr>cube_ref = 0, cube_metadata = ''meta a'', cube_wavelength = ''500'', cube_i = ''1'',
       cube_rgb_image = ''p_1_500_1/rgb_image.png''\<rparr>,
      \<lparr>cube_ref = 1, cube_metadata = ''meta b'', cube_wavelength = ''500'', cube_i = ''2'',
       cube_rgb_image = ''p_1_500_2/rgb_image.png''\<rparr>,
      \<lparr>cube_ref = 2, cube_metadata = ''meta c'', cube_wavelength = ''600'', cube_i = ''1'',
       cube_rgb_image = ''p_1_600_1/rgb_image.png''\<rparr>]"

definition two_selected :: aggregator_state where
  "two_selected = \<lparr>store = [cube_a, cube_b, cube_c], loaded_cubes = demo_loaded,
     selected_images = [0, 1], outputs = []\<rparr>"




definition demo_resume :: resume_world where
  "demo_resume = \<lparr>chosen_folder = ''out'', previous_acquisition = Some (3, 1, 2, ''out/log.csv''),
     resume_answer = True\<rparr>"

section \<open>Integer text round trip\<close>

lemma of_char_digit_char: "d < 10 \<Longrightarrow> (of_char (digit_char d) :: nat) = 48 + d"
  by (simp add: digit_char_def)

lemma is_digit_digit_char: "d < 10 \<Longrightarrow> is_digit (digit_char d)"
  by (simp add: is_digit_def of_char_digit_char)

lemma digit_val_digit_char: "d < 10 \<Longrightarrow> digit_val (digit_char d) = d"
  by (simp add: digit_val_def of_char_digit_char)

lemma not_space_digit: "is_digit c \<Longrightarrow> \<not> is_space c"
  by (auto simp: is_digit_def is_space_def Let_def)

lemma digit_not_sign: "is_digit c \<Longrightarrow> c \<noteq> CHR ''-'' \<and> c \<noteq> CHR ''+'' \<and> c \<noteq> CHR ''_''"
  by (auto simp: is_digit_def)

lemma str_nat_digits: "c \<in> set (str_nat n) \<Longrightarrow> is_digit c"
proof (induction n rule: str_nat.induct)
  case (1 n)
  show ?case
  proof (cases "n < 10")
    case True
    with "1.prems" show ?thesis
      by (simp add: str_nat.simps [of n] is_digit_digit_char)
  next
    case False
    with "1.prems" "1.IH" show ?thesis
      by (auto simp: str_nat.simps [of n] is_digit_digit_char)
  qed
qed

lemma str_nat_nonempty: "str_nat n \<noteq> []"
  by (subst str_nat.simps) simp

lemma digs_append_digit:
  "\<forall>c \<in> set xs. is_digit c \<Longrightarrow> is_digit d
     \<Longrightarrow> digs acc (xs @ [d]) = map_option (\<lambda>v. 10 * v + digit_val d) (digs acc xs)"
proof (induction acc xs rule: digs.induct)
  case (1 acc)
  then show ?case by simp
next
  case (2 acc c)
  then show ?case by simp
next
  case (3 acc c e ds)
  then show ?case by simp
qed

lemma digs_str_nat: "digs 0 (str_nat n) = Some n"
proof (induction n rule: str_nat.induct)
  case (1 n)
  show ?case
  proof (cases "n < 10")
    case True
    then show ?thesis
      by (simp add: str_nat.simps [of n] is_digit_digit_char digit_val_digit_char)
  next
    case False
    have "digs 0 (str_nat (n div 10) @ [digit_char (n mod 10)])
            = map_option (\<lambda>v. 10 * v + digit_val (digit_char (n mod 10)))
                (digs 0 (str_nat (n div 10)))"
      by (rule digs_append_digit) (auto simp: str_nat_digits is_digit_digit_char)
    with False "1.IH" show ?thesis
      by (simp add: str_nat.simps [of n] digit_val_digit_char)
  qed
qed

lemma parse_digits_digs: "s \<noteq> [] \<Longrightarrow> is_digit (hd s) \<Longrightarrow> parse_digits s = digs 0 s"
  by (cases s; cases "tl s") (auto simp: parse_digits_def)

lemma parse_digits_str_nat: "parse_digits (str_nat n) = Some n"
proof -
  have "is_digit (hd (str_nat n))"
    by (rule str_nat_digits [of _ n]) (simp add: str_nat_nonempty)
  then show ?thesis
    by (simp add: parse_digits_digs str_nat_nonempty digs_str_nat)
qed

lemma strip_no_space: "s \<noteq> [] \<Longrightarrow> \<not> is_space (hd s) \<Longrightarrow> \<not> is_space (last s) \<Longrightarrow> strip s = s"
proof -
  assume ne: "s \<noteq> []" and h: "\<not> is_space (hd s)" and l: "\<not> is_space (last s)"
  from ne h have a: "dropWhile is_space s = s"
    by (cases s) auto
  from ne l have "dropWhile is_space (rev s) = rev s"
    by (cases "rev s") (auto simp: last_rev [symmetric] hd_rev)
  with a show ?thesis
    by (simp add: strip_def)
qed

lemma str_nat_hd: "is_digit (hd (str_nat n))"
  by (rule str_nat_digits [of _ n]) (simp add: str_nat_nonempty)

lemma str_nat_last: "is_digit (last (str_nat n))"
  by (rule str_nat_digits [of _ n]) (simp add: str_nat_nonempty)

lemmas str_nat_hd_last = str_nat_hd str_nat_last

lemma strip_str_nat: "strip (str_nat n) = str_nat n"
  by (rule strip_no_space)
     (simp_all add: str_nat_nonempty str_nat_hd_last not_space_digit)

lemma strip_minus_str_nat: "strip (CHR ''-'' # str_nat n) = CHR ''-'' # str_nat n"
proof (rule strip_no_space)
  show "\<not> is_space (hd (CHR ''-'' # str_nat n))"
    by (simp add: is_space_def)
  show "\<not> is_space (last (CHR ''-'' # str_nat n))"
    by (simp add: str_nat_nonempty str_nat_last not_space_digit)
qed simp

lemma filter_digits_str_nat: "filter is_digit (str_nat n) = str_nat n"
  by (simp add: str_nat_digits)

lemma filter_digits_minus: "filter is_digit (CHR ''-'' # str_nat n) = str_nat n"
  using digit_not_sign [of "CHR ''-''"] by (auto simp: filter_digits_str_nat)

lemma py_int_decimal: "str_ok i \<Longrightarrow> py_int (decimal i) = Inr i"
proof (cases "i < 0")
  case True
  moreover assume "str_ok i"
  ultimately show ?thesis
    by (simp add: py_int_def decimal_def str_ok_def strip_minus_str_nat parse_digits_str_nat
        filter_digits_minus abs_if del: filter.simps)
next
  case False
  assume ok: "str_ok i"
  obtain c cs where s: "str_nat (nat i) = c # cs"
    using str_nat_nonempty [of "nat i"] by (cases "str_nat (nat i)") auto
  then have "is_digit c"
    using str_nat_digits [of c "nat i"] by simp
  then have "c \<noteq> CHR ''-''" "c \<noteq> CHR ''+''"
    using digit_not_sign by blast+
  moreover have "parse_digits (c # cs) = Some (nat i)"
    using parse_digits_str_nat [of "nat i"] s by simp
  moreover have "strip (c # cs) = c # cs"
    using strip_str_nat [of "nat i"] s by simp
  moreover have "filter is_digit (c # cs) = c # cs"
    using filter_digits_str_nat [of "nat i"] s by simp
  moreover have "length (c # cs) \<le> max_str_digits"
    using ok False s by (simp add: str_ok_def abs_if)
  ultimately show ?thesis
    using False s by (simp add: py_int_def decimal_def del: filter.simps)
qed

lemma length_str_nat_mono: "m \<le> n \<Longrightarrow> length (str_nat m) \<le> length (str_nat n)"
proof (induction n arbitrary: m rule: str_nat.induct)
  case (1 n)
  show ?case
  proof (cases "n < 10")
    case True
    with "1.prems" show ?thesis
      by (simp add: str_nat.simps [of n] str_nat.simps [of m])
  next
    case False
    show ?thesis
    proof (cases "m < 10")
      case True
      then show ?thesis
        using False by (simp add: str_nat.simps [of n] str_nat.simps [of m])
    next
      case m: False
      from "1.prems" have "m div 10 \<le> n div 10"
        by (rule div_le_mono)
      with False have "length (str_nat (m div 10)) \<le> length (str_nat (n div 10))"
        by (rule "1.IH")
      with False m show ?thesis
        by (simp add: str_nat.simps [of n] str_nat.simps [of m])
    qed
  qed
qed

lemma str_ok_mono:
  assumes "0 \<le> i" "i \<le> n" "str_ok n"
  shows "str_ok i"
proof -
  from assms(1,2) have "nat i \<le> nat n"
    by simp
  then have "length (str_nat (nat i)) \<le> length (str_nat (nat n))"
    by (rule length_str_nat_mono)
  with assms show ?thesis
    by (simp add: str_ok_def)
qed

lemma str_ok_0 [simp]: "str_ok 0"
  by (simp add: str_ok_def str_nat.simps [of 0] max_str_digits_def)

lemma py_str_ok: "str_ok i \<Longrightarrow> py_str i = Inr (decimal i)"
  by (simp add: py_str_def)

lemma writable_iff: "writable i p z \<longleftrightarrow> str_ok i \<and> str_ok p \<and> str_ok z"
  by (simp add: writable_def py_str_def)

section \<open>Updating the ledger\<close>

lemma row_index_ledger_row [simp]:
  "str_ok i \<Longrightarrow> row_index (ledger_row i w p e raw st ts fs) = Some i"
  by (simp add: row_index_def ledger_row_def py_int_decimal)

lemma readable_ledger_row [simp]: "str_ok i \<Longrightarrow> readable (ledger_row i w p e raw st ts fs)"
  by (simp add: readable_def ledger_row_def py_int_decimal)

lemma update_rows_absent:
  "list_all readable rows \<Longrightarrow> index \<notin> set (indices rows)
     \<Longrightarrow> update_rows index new rows = Inr (False, rows)"
  by (induction rows)
     (auto simp: readable_def row_index_def split: sum.splits if_splits)

lemma update_rows_present:
  "list_all readable rows \<Longrightarrow> index \<in> set (indices rows)
     \<Longrightarrow> \<exists>pre r post. rows = pre @ r # post \<and> row_index r = Some index
           \<and> index \<notin> set (indices pre)
           \<and> update_rows index new rows = Inr (True, pre @ new # post)"
proof (induction rows)
  case Nil
  then show ?case by simp
next
  case (Cons a rows)
  show ?case
  proof (cases "row_index a = Some index")
    case True
    then have "update_rows index new (a # rows) = Inr (True, [] @ new # rows)"
      by (auto simp: row_index_def split: sum.splits if_splits)
    with True show ?thesis
      by (intro exI [of _ "[]"] exI [of _ a] exI [of _ rows]) simp
  next
    case False
    with Cons.prems have "index \<in> set (indices rows)" "list_all readable rows"
      by (auto split: option.splits)
    with Cons.IH obtain pre r post where
      h: "rows = pre @ r # post" "row_index r = Some index" "index \<notin> set (indices pre)"
         "update_rows index new rows = Inr (True, pre @ new # post)"
      by blast
    from False Cons.prems(1) h(4)
    have "update_rows index new (a # rows) = Inr (True, (a # pre) @ new # post)"
      by (auto simp: row_index_def readable_def split: sum.splits if_splits)
    moreover from False h(3) have "index \<notin> set (indices (a # pre))"
      by (auto split: option.splits)
    ultimately show ?thesis
      using h(1,2) by (intro exI [of _ "a # pre"] exI [of _ r] exI [of _ post]) simp
  qed
qed

lemma indices_append: "indices (xs @ ys) = indices xs @ indices ys"
  by (induction xs) (auto split: option.splits)

lemma records_for_absent: "index \<notin> set (indices rows) \<Longrightarrow> records_for index rows = []"
  by (induction rows) (auto simp: records_for_def split: option.splits)

lemma records_for_append:
  "records_for k (xs @ ys) = records_for k xs @ records_for k ys"
  by (simp add: records_for_def)

lemma records_for_Cons:
  "records_for k (r # rs) = (if row_index r = Some k then r # records_for k rs else records_for k rs)"
  by (simp add: records_for_def)

lemma indices_Cons_index: "row_index r = Some k \<Longrightarrow> indices (r # rs) = k # indices rs"
  by simp

lemma upsert_rows_absent:
  assumes "rows \<noteq> []" "list_all readable (tl rows)" "index \<notin> set (indices (tl rows))"
    and "fits index a"
  shows "upsert (Some rows) index a = Inr (Some (rows @ [args_row index a]))"
proof -
  obtain h body where r: "rows = h # body"
    using assms(1) by (cases rows) auto
  with assms have "update_rows index (args_row index a) body = Inr (False, body)"
    by (simp add: update_rows_absent)
  with r assms(4) show ?thesis
    by (simp add: upsert_def update_acquisition_log_def args_row_def fits_def)
qed

lemma upsert_rows_present:
  assumes "rows \<noteq> []" "list_all readable (tl rows)" "index \<in> set (indices (tl rows))"
    and "fits index a"
  shows "\<exists>pre r post. tl rows = pre @ r # post \<and> row_index r = Some index
           \<and> index \<notin> set (indices pre)
           \<and> upsert (Some rows) index a = Inr (Some (hd rows # pre @ args_row index a # post))"
proof -
  obtain h body where r: "rows = h # body"
    using assms(1) by (cases rows) auto
  with assms have "list_all readable body" "index \<in> set (indices body)"
    by simp_all
  from update_rows_present [OF this, of "args_row index a"]
  obtain pre r' post where
    h: "body = pre @ r' # post" "row_index r' = Some index" "index \<notin> set (indices pre)"
       "update_rows index (args_row index a) body = Inr (True, pre @ args_row index a # post)"
    by blast
  from r h(4) assms(4)
  have "upsert (Some rows) index a = Inr (Some (hd rows # pre @ args_row index a # post))"
    by (simp add: upsert_def update_acquisition_log_def args_row_def fits_def)
  with r h(1,2,3) show ?thesis
    by auto
qed

lemma fits_str_ok: "fits index a \<Longrightarrow> str_ok index"
  by (simp add: fits_def writable_iff)

lemma row_index_args_row [simp]: "fits index a \<Longrightarrow> row_index (args_row index a) = Some index"
  by (simp add: args_row_def fits_str_ok)

lemma readable_args_row [simp]: "fits index a \<Longrightarrow> readable (args_row index a)"
  by (simp add: args_row_def fits_str_ok)

lemma upsert_step:
  assumes "well_formed f" and fits: "fits index a"
  shows "\<exists>rows. upsert f index a = Inr (Some rows) \<and> well_formed (Some rows)
           \<and> records_for index (tl rows) = [args_row index a]
           \<and> (\<forall>k. k \<noteq> index \<longrightarrow> records_for k (tl rows) = records_for k (tl (the f)))
           \<and> index \<in> set (indices (tl rows))
           \<and> length rows = length (the f) + (if index \<in> set (indices (tl (the f))) then 0 else 1)"
proof -
  from assms obtain rows0 where f: "f = Some rows0" and ne: "rows0 \<noteq> []"
    and hd: "hd rows0 = header" and rd: "list_all readable (tl rows0)"
    and di: "distinct (indices (tl rows0))"
    by (auto simp: well_formed_def split: option.splits)
  show ?thesis
  proof (cases "index \<in> set (indices (tl rows0))")
    case False
    from upsert_rows_absent [OF ne rd False fits]
    have u: "upsert f index a = Inr (Some (rows0 @ [args_row index a]))"
      by (simp add: f)
    from ne have tl: "tl (rows0 @ [args_row index a]) = tl rows0 @ [args_row index a]"
      by simp
    have "well_formed (Some (rows0 @ [args_row index a]))"
      using ne hd rd di False fits by (simp add: well_formed_def tl indices_append)
    moreover have "records_for index (tl (rows0 @ [args_row index a])) = [args_row index a]"
      using False fits by (simp add: tl records_for_append records_for_absent records_for_Cons)
    moreover have "\<forall>k. k \<noteq> index \<longrightarrow>
        records_for k (tl (rows0 @ [args_row index a])) = records_for k (tl (the f))"
      using fits by (simp add: tl f records_for_append records_for_Cons records_for_def)
    moreover have "index \<in> set (indices (tl (rows0 @ [args_row index a])))"
      using fits by (simp add: tl indices_append)
    ultimately show ?thesis
      using u False f by simp
  next
    case True
    from upsert_rows_present [OF ne rd True fits]
    obtain pre r post where
      h: "tl rows0 = pre @ r # post" "row_index r = Some index" "index \<notin> set (indices pre)"
         "upsert (Some rows0) index a = Inr (Some (hd rows0 # pre @ args_row index a # post))"
      by blast
    let ?rows = "hd rows0 # pre @ args_row index a # post"
    have ix: "indices (tl ?rows) = indices (tl rows0)"
      using h(1,2) fits by (simp add: indices_append)
    from di h(1,2) have np: "index \<notin> set (indices post)"
      by (simp add: indices_append)
    have "well_formed (Some ?rows)"
      using hd rd di ix h(1) fits by (simp add: well_formed_def)
    moreover have "records_for index (tl ?rows) = [args_row index a]"
      using h(3) np fits by (simp add: records_for_append records_for_Cons records_for_absent)
    moreover have "\<forall>k. k \<noteq> index \<longrightarrow> records_for k (tl ?rows) = records_for k (tl (the f))"
      using h(1,2) fits by (simp add: f records_for_append records_for_Cons)
    moreover have "length ?rows = length rows0"
      using ne h(1) by (cases rows0) auto
    ultimately show ?thesis
      using h(4) True f ix by simp
  qed
qed

lemma upsert_calls_ok:
  assumes "well_formed f" "list_all (fits index) (as @ [a])"
  shows "\<exists>rows. upsert_calls f index (as @ [a]) = Inr (Some rows) \<and> well_formed (Some rows)
           \<and> records_for index (tl rows) = [args_row index a]
           \<and> (\<forall>k. k \<noteq> index \<longrightarrow> records_for k (tl rows) = records_for k (tl (the f)))
           \<and> length rows = length (the f) + (if index \<in> set (indices (tl (the f))) then 0 else 1)"
  using assms
proof (induction as arbitrary: f)
  case Nil
  then have "fits index a"
    by simp
  from upsert_step [OF Nil(1) this] show ?case
    by auto
next
  case (Cons b as)
  then have "fits index b" "list_all (fits index) (as @ [a])"
    by simp_all
  from upsert_step [OF Cons.prems(1) this(1)]
  obtain rows1 where
    s: "upsert f index b = Inr (Some rows1)" "well_formed (Some rows1)"
       "\<forall>k. k \<noteq> index \<longrightarrow> records_for k (tl rows1) = records_for k (tl (the f))"
       "index \<in> set (indices (tl rows1))"
       "length rows1 = length (the f) + (if index \<in> set (indices (tl (the f))) then 0 else 1)"
    by blast
  from Cons.IH [OF s(2) \<open>list_all (fits index) (as @ [a])\<close>]
  obtain rows where
    r: "upsert_calls (Some rows1) index (as @ [a]) = Inr (Some rows)" "well_formed (Some rows)"
       "records_for index (tl rows) = [args_row index a]"
       "\<forall>k. k \<noteq> index \<longrightarrow> records_for k (tl rows) = records_for k (tl (the (Some rows1)))"
       "length rows = length (the (Some rows1))
          + (if index \<in> set (indices (tl (the (Some rows1)))) then 0 else 1)"
    by blast
  from s r show ?case
    by simp
qed

text \<open>
  C2. On a ledger file (header row, integer indices, no index twice), any number of calls of
  \<^verbatim>\<open>update_acquisition_log\<close> with one index, the last of them with arguments \<open>a\<close>,
  the numbers of each call within what Python turns into text, all return, each writing the
  whole table back; afterwards the file is again a ledger file and holds exactly one record for
  that index, the row of the last call; the records of every other index are the ones that were
  there, and the file has grown by one row if the index was new and not at all otherwise.
\<close>

theorem upsert_keeps_one_record:
  assumes "well_formed f" and "list_all (fits index) (as @ [a])"
  shows "\<exists>rows. upsert_calls f index (as @ [a]) = Inr (Some rows) \<and> well_formed (Some rows)
           \<and> records_for index (tl rows) = [args_row index a]
           \<and> (\<forall>k. k \<noteq> index \<longrightarrow> records_for k (tl rows) = records_for k (tl (the f)))
           \<and> length rows
               = length (the f) + (if index \<in> set (indices (tl (the f))) then 0 else 1)"
  using assms by (rule upsert_calls_ok)

theorem upsert_keeps_one_record_witness:
  "well_formed (Some [header, ledger_row 0 ''500'' 1 ''p_500_1'' [] ''pending'' ''t0'' 0])
   \<and> list_all (fits 0)
        ([\<lparr>arg_wavelength = ''500'', arg_pic_num = 1, arg_expected_name = ''p_500_1'',
            arg_raw_filename = [], arg_status = ''timeout'', arg_file_size = 0,
            arg_timestamp = ''t1''\<rparr>]
         @ [\<lparr>arg_wavelength = ''500'', arg_pic_num = 1, arg_expected_name = ''p_500_1'',
              arg_raw_filename = ''a.bin'', arg_status = ''completed'', arg_file_size = 12,
              arg_timestamp = ''t2''\<rparr>])
   \<and> (\<exists>rows. upsert_calls (Some [header, ledger_row 0 ''500'' 1 ''p_500_1'' [] ''pending'' ''t0'' 0]) 0
          ([\<lparr>arg_wavelength = ''500'', arg_pic_num = 1, arg_expected_name = ''p_500_1'',
             arg_raw_filename = [], arg_status = ''timeout'', arg_file_size = 0,
             arg_timestamp = ''t1''\<rparr>]
           @ [\<lparr>arg_wavelength = ''500'', arg_pic_num = 1, arg_expected_name = ''p_500_1'',
               arg_raw_filename = ''a.bin'', arg_status = ''completed'', arg_file_size = 12,
               arg_timestamp = ''t2''\<rparr>]) = Inr (Some rows)
        \<and> records_for 0 (tl rows)
            = [ledger_row 0 ''500'' 1 ''p_500_1'' ''a.bin'' ''completed'' ''t2'' 12]
        \<and> length rows = 2)"
proof -
  have h: "well_formed (Some [header, ledger_row 0 ''500'' 1 ''p_500_1'' [] ''pending'' ''t0'' 0])"
    by (simp add: well_formed_def)
  have g: "list_all (fits 0)
        ([\<lparr>arg_wavelength = ''500'', arg_pic_num = 1, arg_expected_name = ''p_500_1'',
            arg_raw_filename = [], arg_status = ''timeout'', arg_file_size = 0,
            arg_timestamp = ''t1''\<rparr>]
         @ [\<lparr>arg_wavelength = ''500'', arg_pic_num = 1, arg_expected_name = ''p_500_1'',
              arg_raw_filename = ''a.bin'', arg_status = ''completed'', arg_file_size = 12,
              arg_timestamp = ''t2''\<rparr>])"
    by code_simp
  show ?thesis
    using h g upsert_keeps_one_record [OF h g]
    by (auto simp: args_row_def)
qed

section \<open>Expanding the plan\<close>

lemma row_index_pending_row [simp]:
  "str_ok (entry_index e) \<Longrightarrow> row_index (pending_row e ts) = Some (entry_index e)"
  by (simp add: pending_row_def)

lemma readable_pending_row [simp]: "str_ok (entry_index e) \<Longrightarrow> readable (pending_row e ts)"
  by (simp add: pending_row_def)

lemma indices_pending_rows:
  "length tss = length es \<Longrightarrow> list_all (\<lambda>e. str_ok (entry_index e)) es
     \<Longrightarrow> indices (map2 pending_row es tss) = map entry_index es"
  by (induction es tss rule: list_induct2') auto

lemma readable_pending_rows:
  "list_all (\<lambda>e. str_ok (entry_index e)) es \<Longrightarrow> list_all readable (map2 pending_row es tss)"
  by (auto simp: list_all_iff dest: set_zip_leftD)

lemma rows_before_absent:
  "list_all readable rows \<Longrightarrow> index \<notin> set (indices rows) \<Longrightarrow> rows_before index rows = rows"
  by (induction rows)
     (auto simp: readable_def row_index_def split: sum.splits if_splits)

lemma log_update_pending:
  assumes "log_file s = Some (header # map2 pending_row es tss)" "length tss = length es"
    and "map entry_index es = map int [0..<length es]"
    and "list_all (\<lambda>e. str_ok (entry_index e)) es"
    and e: "e = \<lparr>entry_index = int (length es), entry_wavelength = wl, entry_pic_num = i,
                 entry_expected_name = en\<rparr>"
  shows "log_update w s (int (length es)) wl i en [] ''pending'' 0
           = (if writable (int (length es)) i 0 then
                Inr (emit [LedgerWrite (int (length es)) ''pending'']
                       (s\<lparr>log_file := Some (header # map2 pending_row (es @ [e])
                                                       (tss @ [now w (length (trace s))]))\<rparr>))
              else Inl (ValueError, s\<lparr>log_file := Some (header # map2 pending_row es tss)\<rparr>))"
proof -
  let ?rows = "map2 pending_row es tss"
  have a: "int (length es) \<notin> set (indices ?rows)"
    using assms(2,3,4) by (auto simp: indices_pending_rows)
  have r: "list_all readable ?rows"
    using assms(4) by (rule readable_pending_rows)
  from r a have "update_rows (int (length es)) new ?rows = Inr (False, ?rows)" for new
    by (rule update_rows_absent)
  moreover from r a have "rows_before (int (length es)) ?rows = ?rows"
    by (rule rows_before_absent)
  moreover have "pending_row e ts = ledger_row (int (length es)) wl i en [] ''pending'' ts 0" for ts
    by (simp add: e pending_row_def)
  ultimately show ?thesis
    using assms(1,2) by (simp add: log_update_def update_acquisition_log_def)
qed

lemma expected_name_of_ok:
  "str_ok i \<Longrightarrow> expected_name_of project wl i = Inr (project @ ''_'' @ wl @ ''_'' @ decimal i)"
  by (simp add: expected_name_of_def py_str_def)

lemma prepopulate_ok:
  assumes "log_inv s ai" "list_all str_ok is" "str_ok (ai + int (length is))"
  shows "\<exists>s'. prepopulate w c wl is (s, ai) = Inr (s', ai + int (length is)) \<and> log_inv s' (ai + int (length is))
           \<and> (\<exists>new. acquisition_log s' = acquisition_log s @ new
                 \<and> map (\<lambda>e. (entry_wavelength e, entry_pic_num e)) new = map (\<lambda>i. (wl, i)) is)"
  using assms
proof (induction "is" arbitrary: s ai)
  case Nil
  then show ?case by simp
next
  case (Cons i "is")
  let ?es = "acquisition_log s"
  let ?en = "ctx_project_name c @ ''_'' @ wl @ ''_'' @ decimal i"
  let ?e = "\<lparr>entry_index = int (length ?es), entry_wavelength = wl, entry_pic_num = i,
             entry_expected_name = ?en\<rparr>"
  let ?s1 = "s\<lparr>acquisition_log := ?es @ [?e]\<rparr>"
  from Cons.prems(1) obtain tss where
    ai: "ai = int (length ?es)" and ix: "map entry_index ?es = map int [0..<length ?es]"
    and ok: "list_all (\<lambda>e. str_ok (entry_index e) \<and> str_ok (entry_pic_num e)) ?es"
    and tss: "length tss = length ?es" "log_file s = Some (header # map2 pending_row ?es tss)"
    by (auto simp: log_inv_def)
  from ok have oki: "list_all (\<lambda>e. str_ok (entry_index e)) ?es"
    by (simp add: list_all_iff)
  from Cons.prems(2) have i: "str_ok i" and rest: "list_all str_ok is"
    by simp_all
  have "str_ok ai"
    using _ _ Cons.prems(3) by (rule str_ok_mono) (simp_all add: ai)
  with i have wr: "writable (int (length ?es)) i 0"
    by (simp add: writable_iff ai)
  let ?s2 = "emit [LedgerWrite (int (length ?es)) ''pending'']
               (?s1\<lparr>log_file := Some (header # map2 pending_row (?es @ [?e])
                                              (tss @ [now w (length (trace ?s1))]))\<rparr>)"
  have lu: "log_update w ?s1 (int (length ?es)) wl i ?en [] ''pending'' 0 = Inr ?s2"
    using wr by (subst log_update_pending [where tss = tss and es = ?es and e = ?e])
      (simp_all add: tss ix oki)
  have inv2: "log_inv ?s2 (ai + 1)"
    unfolding log_inv_def
    using ok i \<open>str_ok ai\<close>
    by (intro conjI exI [of _ "tss @ [now w (length (trace ?s1))]"])
       (simp_all add: emit_def ai ix tss)
  have "str_ok (ai + 1 + int (length is))"
    using Cons.prems(3) by (simp add: algebra_simps)
  from Cons.IH [OF inv2 rest this]
  obtain s' new where
    r: "prepopulate w c wl is (?s2, ai + 1) = Inr (s', ai + 1 + int (length is))"
       "log_inv s' (ai + 1 + int (length is))"
       "acquisition_log s' = acquisition_log ?s2 @ new"
       "map (\<lambda>e. (entry_wavelength e, entry_pic_num e)) new = map (\<lambda>i. (wl, i)) is"
    by blast
  have "prepopulate w c wl (i # is) (s, ai) = Inr (s', ai + int (length (i # is)))"
    using lu r(1) i by (simp add: ai Let_def algebra_simps expected_name_of_ok)
  moreover have "log_inv s' (ai + int (length (i # is)))"
    using r(2) by (simp add: algebra_simps)
  moreover have "acquisition_log s' = ?es @ (?e # new)"
    using r(3) by (simp add: emit_def)
  moreover have "map (\<lambda>e. (entry_wavelength e, entry_pic_num e)) (?e # new) = map (\<lambda>i. (wl, i)) (i # is)"
    using r(4) by simp
  ultimately show ?case
    by blast
qed


lemma expand_Cons:
  "expand ((wl, cell) # tree) = map (\<lambda>i. (wl, i)) [1..shot_count cell] @ expand tree"
  by (simp add: expand_def)

lemma length_upto_1: "int (length [1..n]) = (if 0 < n then n else 0)"
  by simp

lemma shot_counts_nonneg:
  "\<forall>(wl, cell) \<in> set tree. positive_count cell \<Longrightarrow> 0 \<le> sum_list (map (shot_count \<circ> snd) tree)"
  by (induction tree)
     (auto simp: positive_count_def shot_count_def split: sum.splits)

lemma build_plan_ok:
  assumes "log_inv s ai" "\<forall>(wl, cell) \<in> set tree. positive_count cell"
    and "str_ok (ai + sum_list (map (shot_count \<circ> snd) tree))"
  shows "\<exists>s'. build_plan w c tree (s, ai) = Inr (s', ai + sum_list (map (shot_count \<circ> snd) tree))
           \<and> log_inv s' (ai + sum_list (map (shot_count \<circ> snd) tree))
           \<and> (\<exists>new. acquisition_log s' = acquisition_log s @ new
                 \<and> map (\<lambda>e. (entry_wavelength e, entry_pic_num e)) new = expand tree)"
  using assms
proof (induction tree arbitrary: s ai)
  case Nil
  then show ?case by (simp add: expand_def)
next
  case (Cons row tree)
  obtain wl cell where row: "row = (wl, cell)"
    by (cases row)
  with Cons.prems(2) obtain n where n: "py_int cell = Inr n" "0 < n"
    by (auto simp: positive_count_def split: sum.splits)
  then have sc: "shot_count cell = n" and len: "int (length [1..n]) = n"
    by (simp_all add: shot_count_def)
  from Cons.prems(2) have pos: "\<forall>(wl, cell) \<in> set tree. positive_count cell"
    by simp
  then have nn: "0 \<le> sum_list (map (shot_count \<circ> snd) tree)"
    by (rule shot_counts_nonneg)
  from Cons.prems(1) have ai: "0 \<le> ai"
    by (simp add: log_inv_def)
  have "sum_list (map (shot_count \<circ> snd) (row # tree))
      = n + sum_list (map (shot_count \<circ> snd) tree)"
    by (simp add: row sc)
  with Cons.prems(3) have top: "str_ok (ai + n + sum_list (map (shot_count \<circ> snd) tree))"
    by (simp only: add.assoc)
  have s1: "str_ok (ai + n)"
    using _ _ top by (rule str_ok_mono) (use ai n(2) nn in simp_all)
  have "list_all str_ok [1..n]"
    unfolding list_all_iff
  proof
    fix i assume "i \<in> set [1..n]"
    then have "0 \<le> i" "i \<le> ai + n"
      using ai by simp_all
    then show "str_ok i"
      using s1 by (rule str_ok_mono)
  qed
  moreover have "str_ok (ai + int (length [1..n]))"
    using s1 by (simp only: len)
  ultimately obtain s1 new1 where
    p: "prepopulate w c wl [1..n] (s, ai) = Inr (s1, ai + n)" "log_inv s1 (ai + n)"
       "acquisition_log s1 = acquisition_log s @ new1"
       "map (\<lambda>e. (entry_wavelength e, entry_pic_num e)) new1 = map (\<lambda>i. (wl, i)) [1..n]"
    using prepopulate_ok [OF Cons.prems(1), of "[1..n]" w c wl] unfolding len by blast
  from Cons.IH [OF p(2) pos top]
  obtain s' new where
    r: "build_plan w c tree (s1, ai + n)
          = Inr (s', ai + n + sum_list (map (shot_count \<circ> snd) tree))"
       "log_inv s' (ai + n + sum_list (map (shot_count \<circ> snd) tree))"
       "acquisition_log s' = acquisition_log s1 @ new"
       "map (\<lambda>e. (entry_wavelength e, entry_pic_num e)) new = expand tree"
    by blast
  have "build_plan w c (row # tree) (s, ai)
          = Inr (s', ai + sum_list (map (shot_count \<circ> snd) (row # tree)))"
    using p(1) r(1) n(1) by (simp add: row sc algebra_simps)
  moreover have "log_inv s' (ai + sum_list (map (shot_count \<circ> snd) (row # tree)))"
    using r(2) by (simp add: row sc algebra_simps)
  moreover have "acquisition_log s' = acquisition_log s @ (new1 @ new)"
    using p(3) r(3) by simp
  moreover have "map (\<lambda>e. (entry_wavelength e, entry_pic_num e)) (new1 @ new) = expand (row # tree)"
    using p(4) r(4) by (simp add: row expand_Cons sc)
  ultimately show ?case
    by blast
qed

text \<open>
  C1. For a plan whose shot counts all read as positive integers, adding up to a number within
  what Python turns into text, the pre-population of a run
  returns; the in-memory log then has as many entries as the shot counts add up to, numbered
  0, 1, ... without gap or repetition, in plan order with picture numbers 1 to the row's count;
  and the log file holds the header and one row per entry, each with status pending, under
  the same indices.
\<close>

theorem plan_expansion:
  assumes "\<forall>(wavelength, cell) \<in> set tree. positive_count cell"
    and "str_ok (sum_list (map (shot_count \<circ> snd) tree))"
  shows "\<exists>s1. build_plan w c tree
                 (s\<lparr>acquisition_log := [], log_file := create_acquisition_log_file\<rparr>, 0)
               = Inr (s1, sum_list (map (shot_count \<circ> snd) tree))
           \<and> int (length (acquisition_log s1)) = sum_list (map (shot_count \<circ> snd) tree)
           \<and> map entry_index (acquisition_log s1) = map int [0..<length (acquisition_log s1)]
           \<and> map (\<lambda>e. (entry_wavelength e, entry_pic_num e)) (acquisition_log s1) = expand tree
           \<and> (\<exists>tss. length tss = length (acquisition_log s1)
                 \<and> log_file s1 = Some (header # map2 pending_row (acquisition_log s1) tss)
                 \<and> indices (map2 pending_row (acquisition_log s1) tss)
                     = map int [0..<length (acquisition_log s1)])"
proof -
  let ?s0 = "s\<lparr>acquisition_log := [], log_file := create_acquisition_log_file\<rparr>"
  have "log_inv ?s0 0"
    by (simp add: log_inv_def create_acquisition_log_file_def)
  moreover have "str_ok (0 + sum_list (map (shot_count \<circ> snd) tree))"
    using assms(2) by simp
  ultimately obtain s1 where
    r: "build_plan w c tree (?s0, 0) = Inr (s1, sum_list (map (shot_count \<circ> snd) tree))"
       "log_inv s1 (sum_list (map (shot_count \<circ> snd) tree))"
       "map (\<lambda>e. (entry_wavelength e, entry_pic_num e)) (acquisition_log s1) = expand tree"
    using build_plan_ok [OF _ assms(1), of ?s0 0 w c] by auto
  from r(2) obtain tss where
    t: "int (length (acquisition_log s1)) = sum_list (map (shot_count \<circ> snd) tree)"
       "map entry_index (acquisition_log s1) = map int [0..<length (acquisition_log s1)]"
       "length tss = length (acquisition_log s1)"
       "log_file s1 = Some (header # map2 pending_row (acquisition_log s1) tss)"
       "list_all (\<lambda>e. str_ok (entry_index e)) (acquisition_log s1)"
    by (auto simp: log_inv_def list_all_iff)
  from t(2,3,5) have "indices (map2 pending_row (acquisition_log s1) tss)
      = map int [0..<length (acquisition_log s1)]"
    by (simp add: indices_pending_rows)
  with r(1,3) t(1-4) show ?thesis
    by blast
qed

theorem plan_expansion_witness:
  "list_all (\<lambda>(wavelength, cell). positive_count cell) demo_plan
   \<and> str_ok (sum_list (map (shot_count \<circ> snd) demo_plan))
   \<and> (\<exists>s1. build_plan (demo_world True) demo_context demo_plan
               (initial_state\<lparr>acquisition_log := [], log_file := create_acquisition_log_file\<rparr>, 0)
             = Inr (s1, 3)
         \<and> length (acquisition_log s1) = 3
         \<and> map entry_index (acquisition_log s1) = [0, 1, 2]
         \<and> map (\<lambda>e. (entry_wavelength e, entry_pic_num e)) (acquisition_log s1)
             = [(''500'', 1), (''500'', 2), (''600'', 1)])"
proof -
  have h: "\<forall>(wavelength, cell) \<in> set demo_plan. positive_count cell"
    by code_simp
  have n: "sum_list (map (shot_count \<circ> snd) demo_plan) = 3"
    by code_simp
  have e: "expand demo_plan = [(''500'', 1), (''500'', 2), (''600'', 1)]"
    by code_simp
  have u: "[0..<3] = [0, 1, 2]"
    by code_simp
  have k: "str_ok (sum_list (map (shot_count \<circ> snd) demo_plan))"
    by code_simp
  from plan_expansion [OF h k, of "demo_world True" demo_context initial_state]
  obtain s1 where
    r: "build_plan (demo_world True) demo_context demo_plan
          (initial_state\<lparr>acquisition_log := [], log_file := create_acquisition_log_file\<rparr>, 0)
        = Inr (s1, 3)"
       "int (length (acquisition_log s1)) = 3"
       "map entry_index (acquisition_log s1) = map int [0..<length (acquisition_log s1)]"
       "map (\<lambda>e. (entry_wavelength e, entry_pic_num e)) (acquisition_log s1)
          = [(''500'', 1), (''500'', 2), (''600'', 1)]"
    unfolding n e by (elim exE conjE) (rule that; assumption)
  from r(2) have l: "length (acquisition_log s1) = 3"
    by simp
  with r(3) u have ix: "map entry_index (acquisition_log s1) = [0, 1, 2]"
    by simp
  show ?thesis
  proof (intro conjI exI)
    show "list_all (\<lambda>(wavelength, cell). positive_count cell) demo_plan"
      using h by (simp add: list_all_iff)
    show "str_ok (sum_list (map (shot_count \<circ> snd) demo_plan))"
      by (rule k)
    show "build_plan (demo_world True) demo_context demo_plan
            (initial_state\<lparr>acquisition_log := [], log_file := create_acquisition_log_file\<rparr>, 0)
          = Inr (s1, 3)"
      by (rule r(1))
    show "length (acquisition_log s1) = 3"
      by (rule l)
    show "map entry_index (acquisition_log s1) = [0, 1, 2]"
      by (rule ix)
    show "map (\<lambda>e. (entry_wavelength e, entry_pic_num e)) (acquisition_log s1)
            = [(''500'', 1), (''500'', 2), (''600'', 1)]"
      by (rule r(4))
  qed
qed

section \<open>The watcher\<close>

lemma scan_accepted:
  "scan_new_files env t fs = Accepted f
     \<Longrightarrow> f \<in> set fs \<and> endswith f ''.bin''
         \<and> (\<exists>t1 sz. t \<le> t1 \<and> getsize env t1 f = Some sz \<and> getsize env (t1 + 2) f = Some sz
               \<and> 0 < sz)"
proof (induction fs arbitrary: t)
  case Nil
  then show ?case by simp
next
  case (Cons g fs)
  consider (skip) "scan_new_files env t fs = Accepted f"
    | (later) "scan_new_files env (t + 2) fs = Accepted f"
    | (here) "g = f" "endswith g ''.bin''"
        "\<exists>sz. getsize env t g = Some sz \<and> getsize env (t + 2) g = Some sz \<and> 0 < sz"
    using Cons.prems by (auto split: if_splits option.splits)
  then show ?case
  proof cases
    case skip
    from Cons.IH [OF this] show ?thesis
      by auto
  next
    case later
    from Cons.IH [OF this] obtain t1 sz where
      "f \<in> set fs" "endswith f ''.bin''" "t + 2 \<le> t1" "getsize env t1 f = Some sz"
      "getsize env (t1 + 2) f = Some sz" "0 < sz"
      by blast
    moreover from this have "t \<le> t1"
      by simp
    ultimately show ?thesis
      by (intro conjI exI [of _ t1] exI [of _ sz]) simp_all
  next
    case here
    then obtain sz where "getsize env t f = Some sz" "getsize env (t + 2) f = Some sz" "0 < sz"
      by blast
    with here(1,2) show ?thesis
      by (intro conjI exI [of _ t] exI [of _ sz]) simp_all
  qed
qed

lemma scan_no_candidate:
  "\<forall>f \<in> set fs. \<not> endswith f ''.bin'' \<Longrightarrow> scan_new_files env t fs = NoneAccepted t"
  by (induction fs) auto

lemma scan_unstable:
  assumes "endswith f ''.bin''" "getsize env t f = Some a" "getsize env (t + 2) f = Some b"
    and "b \<noteq> a \<or> a = 0"
  shows "scan_new_files env t (f # rest) = scan_new_files env (t + 2) rest"
  using assms by auto

lemma wait_loop_accepted:
  "wait_loop env ini timeout t0 = Some f
     \<Longrightarrow> \<exists>t cur t1 sz. t0 \<le> t \<and> int t < timeout \<and> listdir env t = Some cur \<and> f \<in> set cur
           \<and> f \<notin> set ini \<and> endswith f ''.bin''
           \<and> t \<le> t1 \<and> getsize env t1 f = Some sz \<and> getsize env (t1 + 2) f = Some sz \<and> 0 < sz"
proof (induction env ini timeout t0 rule: wait_loop.induct)
  case (1 env ini timeout t)
  from "1.prems" have lt: "int t < timeout"
    by (subst (asm) wait_loop.simps) (auto split: if_splits)
  show ?case
  proof (cases "listdir env t")
    case None
    with lt "1.prems" have "wait_loop env ini timeout (t + 1) = Some f"
      by (subst (asm) wait_loop.simps) simp
    from "1.IH"(1) [OF lt None this] show ?thesis
      by (meson add_leD1)
  next
    case (Some cur)
    show ?thesis
    proof (cases "scan_new_files env t (new_files ini cur)")
      case (Accepted g)
      with lt Some "1.prems" have g: "g = f"
        by (subst (asm) wait_loop.simps) simp
      from scan_accepted [OF Accepted [unfolded g]]
      obtain t1 sz where "f \<in> set (new_files ini cur)" "endswith f ''.bin''" "t \<le> t1"
        "getsize env t1 f = Some sz" "getsize env (t1 + 2) f = Some sz" "0 < sz"
        by blast
      moreover from this have "f \<in> set cur" "f \<notin> set ini"
        by (simp_all add: new_files_def)
      ultimately show ?thesis
        using lt Some by (intro exI [of _ t] exI [of _ cur] exI [of _ t1] exI [of _ sz]) simp
    next
      case (NoneAccepted t')
      with lt Some "1.prems" have "wait_loop env ini timeout (t' + 1) = Some f"
        by (subst (asm) wait_loop.simps) simp
      from "1.IH"(2) [OF lt Some NoneAccepted this]
        scan_new_files_clock [of env t "new_files ini cur" t'] NoneAccepted
      show ?thesis
        by (meson add_leD1 le_trans)
    next
      case (Raised t')
      with lt Some "1.prems" have "wait_loop env ini timeout (t' + 1) = Some f"
        by (subst (asm) wait_loop.simps) simp
      from "1.IH"(3) [OF lt Some Raised this]
        scan_new_files_clock [of env t "new_files ini cur" t'] Raised
      show ?thesis
        by (meson add_leD1 le_trans)
    qed
  qed
qed

lemma wait_loop_none:
  "no_new_bin env ini timeout \<Longrightarrow> wait_loop env ini timeout t0 = None"
proof (induction env ini timeout t0 rule: wait_loop.induct)
  case (1 env ini timeout t)
  show ?case
  proof (cases "int t < timeout")
    case False
    then show ?thesis
      by (subst wait_loop.simps) simp
  next
    case lt: True
    show ?thesis
    proof (cases "listdir env t")
      case None
      with lt "1.IH"(1) [OF lt None "1.prems"] show ?thesis
        by (subst wait_loop.simps) simp
    next
      case (Some cur)
      with lt "1.prems" have "\<forall>f \<in> set (new_files ini cur). \<not> endswith f ''.bin''"
        by (auto simp: no_new_bin_def new_files_def)
      then have sc: "scan_new_files env t (new_files ini cur) = NoneAccepted t"
        by (rule scan_no_candidate)
      from "1.IH"(2) [OF lt Some sc "1.prems"] lt Some sc show ?thesis
        by (subst wait_loop.simps) simp
    qed
  qed
qed


lemma scan_not_returned:
  assumes "endswith f ''.bin''" "getsize env t f = Some a" "getsize env (t + 2) f = Some b"
    and "b \<noteq> a \<or> a = 0" and "f \<notin> set rest"
  shows "scan_new_files env t (f # rest) \<noteq> Accepted f"
proof
  assume "scan_new_files env t (f # rest) = Accepted f"
  with scan_unstable [OF assms(1-4), of rest]
  have "scan_new_files env (t + 2) rest = Accepted f"
    by simp
  from scan_accepted [OF this] assms(5) show False
    by simp
qed

text \<open>
  C3. \<^verbatim>\<open>wait_for_new_file\<close> returns \<^verbatim>\<open>None\<close> when no new \<^verbatim>\<open>.bin\<close> file
  appears in a listing taken before the time-out. A returned name is absent from the initial
  snapshot, present in a listing taken before the time-out, ends in \<^verbatim>\<open>.bin\<close>, and its
  size was read, then read again two seconds later, and found equal and positive. A candidate
  whose second reading differs from the first, or whose size is zero, is passed over on that
  check: the scan goes on with the remaining candidates and does not return it.
\<close>

theorem wait_for_new_file_sound:
  "(initial_listing env = Some initial_files \<longrightarrow> no_new_bin env initial_files timeout_seconds
      \<longrightarrow> wait_for_new_file raw_folder env timeout_seconds = Inr None)
   \<and> (wait_for_new_file raw_folder env timeout_seconds = Inr (Some new_file)
      \<longrightarrow> (\<exists>ini t current_files t1 size.
             initial_listing env = Some ini \<and> new_file \<notin> set ini
           \<and> int t < timeout_seconds \<and> listdir env t = Some current_files
           \<and> new_file \<in> set current_files \<and> endswith new_file ''.bin''
           \<and> t \<le> t1 \<and> getsize env t1 new_file = Some size
           \<and> getsize env (t1 + 2) new_file = Some size \<and> 0 < size))
   \<and> (endswith f ''.bin'' \<longrightarrow> getsize env t f = Some a \<longrightarrow> getsize env (t + 2) f = Some b
      \<longrightarrow> b \<noteq> a \<or> a = 0 \<longrightarrow> f \<notin> set rest
      \<longrightarrow> scan_new_files env t (f # rest) = scan_new_files env (t + 2) rest
        \<and> scan_new_files env t (f # rest) \<noteq> Accepted f)"
proof (intro conjI impI)
  assume "initial_listing env = Some initial_files" "no_new_bin env initial_files timeout_seconds"
  then show "wait_for_new_file raw_folder env timeout_seconds = Inr None"
    by (simp add: wait_for_new_file_def wait_loop_none)
next
  assume r: "wait_for_new_file raw_folder env timeout_seconds = Inr (Some new_file)"
  then obtain ini where ini: "initial_listing env = Some ini"
    and "wait_loop env ini timeout_seconds 0 = Some new_file"
    by (auto simp: wait_for_new_file_def split: if_splits option.splits)
  from wait_loop_accepted [OF this(2)] ini
  show "\<exists>ini t current_files t1 size.
             initial_listing env = Some ini \<and> new_file \<notin> set ini
           \<and> int t < timeout_seconds \<and> listdir env t = Some current_files
           \<and> new_file \<in> set current_files \<and> endswith new_file ''.bin''
           \<and> t \<le> t1 \<and> getsize env t1 new_file = Some size
           \<and> getsize env (t1 + 2) new_file = Some size \<and> 0 < size"
    by blast
next
  assume "endswith f ''.bin''" "getsize env t f = Some a" "getsize env (t + 2) f = Some b"
    "b \<noteq> a \<or> a = 0"
  then show "scan_new_files env t (f # rest) = scan_new_files env (t + 2) rest"
    by (rule scan_unstable)
next
  assume "endswith f ''.bin''" "getsize env t f = Some a" "getsize env (t + 2) f = Some b"
    "b \<noteq> a \<or> a = 0" "f \<notin> set rest"
  then show "scan_new_files env t (f # rest) \<noteq> Accepted f"
    by (rule scan_not_returned)
qed

theorem wait_for_new_file_sound_witness:
  "initial_listing quiet_folder = Some [''old.bin''] \<and> no_new_bin quiet_folder [''old.bin''] 5
   \<and> wait_for_new_file ''raw'' quiet_folder 5 = Inr None
   \<and> wait_for_new_file ''raw'' arriving_folder 5 = Inr (Some ''new.bin'')
   \<and> (\<exists>t1 size. getsize arriving_folder t1 ''new.bin'' = Some size
          \<and> getsize arriving_folder (t1 + 2) ''new.bin'' = Some size \<and> 0 < size)
   \<and> endswith ''new.bin'' ''.bin'' \<and> getsize arriving_folder 1 ''new.bin'' = Some 4
   \<and> getsize arriving_folder (1 + 2) ''new.bin'' = Some 12
   \<and> scan_new_files arriving_folder 1 [''new.bin''] \<noteq> Accepted ''new.bin''"
proof -
  have a: "initial_listing quiet_folder = Some [''old.bin'']"
    by (simp add: quiet_folder_def)
  have b: "no_new_bin quiet_folder [''old.bin''] 5"
    by (auto simp: no_new_bin_def quiet_folder_def endswith_def)
  have c: "wait_for_new_file ''raw'' arriving_folder 5 = Inr (Some ''new.bin'')"
    by code_simp
  have d: "endswith ''new.bin'' ''.bin''" "getsize arriving_folder 1 ''new.bin'' = Some 4"
    "getsize arriving_folder (1 + 2) ''new.bin'' = Some 12"
    by (simp_all add: endswith_def arriving_folder_def)
  from a b c d
    wait_for_new_file_sound [of quiet_folder "[''old.bin'']" 5 "''raw''" "''new.bin''"
      "''new.bin''" 1 4 12 "[]"]
    wait_for_new_file_sound [of arriving_folder "[''old.bin'']" 5 "''raw''" "''new.bin''"
      "''new.bin''" 1 4 12 "[]"]
  show ?thesis
    by auto
qed

section \<open>The driver loop\<close>

lemma indexed_rows_nth:
  "indexed_rows rows \<longleftrightarrow> (\<forall>j<length rows. row_index (rows ! j) = Some (int j))"
proof -
  have "indexed_rows rows \<longleftrightarrow>
      (\<forall>j<length rows. map row_index rows ! j = map (\<lambda>j. Some (int j)) [0..<length rows] ! j)"
    unfolding indexed_rows_def by (subst list_eq_iff_nth_eq) simp
  also have "\<dots> \<longleftrightarrow> (\<forall>j<length rows. row_index (rows ! j) = Some (int j))"
    by simp
  finally show ?thesis .
qed

lemma update_rows_offset:
  assumes "\<forall>j<length rows. row_index (rows ! j) = Some (int (j + off))" "i < length rows"
  shows "update_rows (int (i + off)) new rows = Inr (True, rows[i := new])"
  using assms
proof (induction rows arbitrary: i off)
  case Nil
  then show ?case by simp
next
  case (Cons r rows)
  from Cons.prems(1) have r: "row_index r = Some (int off)"
    by fastforce
  then have r': "r \<noteq> []" "py_int (hd r) = Inr (int off)"
    by (auto simp: row_index_def split: if_splits sum.splits)
  show ?case
  proof (cases i)
    case 0
    with r' show ?thesis by simp
  next
    case (Suc i')
    from Cons.prems(1) have "\<forall>j<length rows. row_index (rows ! j) = Some (int (j + Suc off))"
      by fastforce
    moreover from Suc Cons.prems(2) have "i' < length rows"
      by simp
    ultimately have "update_rows (int (i' + Suc off)) new rows = Inr (True, rows[i' := new])"
      by (rule Cons.IH)
    with Suc r' show ?thesis by simp
  qed
qed

lemma update_rows_indexed:
  assumes "indexed_rows rows" "i < length rows"
  shows "update_rows (int i) new rows = Inr (True, rows[i := new])"
  using update_rows_offset [of rows 0 i new] assms by (simp add: indexed_rows_nth)

lemma indexed_rows_update:
  assumes "indexed_rows rows" "row_index new = Some (int i)"
  shows "indexed_rows (rows[i := new])"
  unfolding indexed_rows_nth
proof (intro allI impI)
  fix j assume "j < length (rows[i := new])"
  then have j: "j < length rows"
    by simp
  show "row_index (rows[i := new] ! j) = Some (int j)"
  proof (cases "j = i")
    case True
    with j assms(2) show ?thesis by simp
  next
    case False
    with j assms(1) show ?thesis by (simp add: indexed_rows_nth)
  qed
qed

lemma log_update_indexed:
  assumes "log_file s = Some (header # rows)" "indexed_rows rows" "i < length rows"
    and "writable (int i) pn sz"
  shows "log_update w s (int i) wl pn en raw st sz
           = Inr (s\<lparr>log_file := Some (header # rows[i := ledger_row (int i) wl pn en raw st
                                                          (now w (length (trace s))) sz]),
                    trace := trace s @
                      [(LedgerWrite (int i) st,
                        Some (header # rows[i := ledger_row (int i) wl pn en raw st
                                                   (now w (length (trace s))) sz]))]\<rparr>)"
  using assms
  by (simp add: log_update_def update_acquisition_log_def update_rows_indexed emit_def)

lemma log_update_unwritable:
  assumes "log_file s = Some (header # rows)" "indexed_rows rows" "i < length rows"
    and "\<not> writable (int i) pn sz"
  shows "\<exists>f. log_update w s (int i) wl pn en raw st sz = Inl (ValueError, s\<lparr>log_file := f\<rparr>)"
proof -
  have "log_update w s (int i) wl pn en raw st sz
      = Inl (ValueError, s\<lparr>log_file := Some (header # rows_before (int i) rows)\<rparr>)"
    using assms
    by (simp add: log_update_def update_acquisition_log_def update_rows_indexed)
  then show ?thesis ..
qed

lemma status_of_ledger_row [simp]: "status_of (ledger_row i wl pn en raw st ts sz) = st"
  by (simp add: status_of_def ledger_row_def)

lemma entry_index_nth:
  "map entry_index es = map int [0..<length es] \<Longrightarrow> i < length es \<Longrightarrow> entry_index (es ! i) = int i"
  by (metis (no_types, lifting) add.left_neutral length_map nth_map nth_upt)

lemma entries_writable:
  assumes "list_all (\<lambda>e. str_ok (entry_index e) \<and> str_ok (entry_pic_num e)) es" "i < length es"
    and "map entry_index es = map int [0..<length es]"
  shows "str_ok (int i)" "str_ok (entry_pic_num (es ! i))"
proof -
  from assms(1,2) have "str_ok (entry_index (es ! i)) \<and> str_ok (entry_pic_num (es ! i))"
    by (simp add: list_all_length)
  moreover have "entry_index (es ! i) = int i"
    using assms(3,2) by (rule entry_index_nth)
  ultimately show "str_ok (int i)" "str_ok (entry_pic_num (es ! i))"
    by simp_all
qed

lemma cancel_remaining_ok:
  assumes "log_file s = Some (header # rows)" "indexed_rows rows" "length rows = length es"
    and "map entry_index es = map int [0..<length es]" "m \<le> length es"
    and "list_all (\<lambda>e. str_ok (entry_index e) \<and> str_ok (entry_pic_num e)) es"
  shows "\<exists>s' rows'. cancel_remaining w (drop m es) s = Inr s'
           \<and> log_file s' = Some (header # rows') \<and> acquisition_log s' = acquisition_log s
           \<and> experiment_finished s' = experiment_finished s
           \<and> map fst (trace s')
               = map fst (trace s) @ map (\<lambda>i. LedgerWrite (int i) ''cancelled'') [m..<length es]
           \<and> indexed_rows rows' \<and> length rows' = length es
           \<and> (\<forall>i<m. rows' ! i = rows ! i)
           \<and> (\<forall>i. m \<le> i \<and> i < length es \<longrightarrow> status_of (rows' ! i) = ''cancelled'')"
  using assms
proof (induction "length es - m" arbitrary: m s rows)
  case 0
  then have "drop m es = []" "[m..<length es] = []"
    by simp_all
  with 0 show ?case
    by (intro exI [of _ s] exI [of _ rows]) auto
next
  case (Suc n)
  then have m: "m < length es"
    by simp
  let ?e = "es ! m"
  let ?row = "ledger_row (int m) (entry_wavelength ?e) (entry_pic_num ?e) (entry_expected_name ?e)
                [] ''cancelled'' (now w (length (trace s))) 0"
  let ?s1 = "s\<lparr>log_file := Some (header # rows[m := ?row]),
               trace := trace s @ [(LedgerWrite (int m) ''cancelled'',
                                    Some (header # rows[m := ?row]))]\<rparr>"
  have dr: "drop m es = ?e # drop (Suc m) es"
    using m by (simp add: Cons_nth_drop_Suc)
  have ei: "entry_index ?e = int m"
    using Suc.prems(4) m by (rule entry_index_nth)
  have ok: "str_ok (int m)" "str_ok (entry_pic_num ?e)"
    using entries_writable [OF Suc.prems(6) m Suc.prems(4)] by simp_all
  then have wr: "writable (int m) (entry_pic_num ?e) 0"
    by (simp add: writable_iff)
  have ml: "m < length rows"
    using Suc.prems(3) m by simp
  have lu: "log_update w s (int m) (entry_wavelength ?e) (entry_pic_num ?e)
              (entry_expected_name ?e) [] ''cancelled'' 0 = Inr ?s1"
    using Suc.prems(1,2) ml wr by (rule log_update_indexed)
  have ix1: "indexed_rows (rows[m := ?row])"
    using Suc.prems(2) by (rule indexed_rows_update) (simp add: ok)
  have n: "n = length es - Suc m"
    using Suc.hyps(2) by simp
  have lf: "log_file ?s1 = Some (header # rows[m := ?row])"
    by simp
  have len: "length (rows[m := ?row]) = length es"
    using Suc.prems(3) by simp
  have sm: "Suc m \<le> length es"
    using m by simp
  from Suc.hyps(1) [OF n lf ix1 len Suc.prems(4) sm Suc.prems(6)]
  obtain s' rows' where
    r: "cancel_remaining w (drop (Suc m) es) ?s1 = Inr s'"
       "log_file s' = Some (header # rows')" "acquisition_log s' = acquisition_log ?s1"
       "experiment_finished s' = experiment_finished ?s1"
       "map fst (trace s') = map fst (trace ?s1)
          @ map (\<lambda>i. LedgerWrite (int i) ''cancelled'') [Suc m..<length es]"
       "indexed_rows rows'" "length rows' = length es"
       "\<forall>i<Suc m. rows' ! i = rows[m := ?row] ! i"
       "\<forall>i. Suc m \<le> i \<and> i < length es \<longrightarrow> status_of (rows' ! i) = ''cancelled''"
    by (elim exE conjE) (rule that; assumption)
  have "cancel_remaining w (drop m es) s = Inr s'"
    using r(1) lu by (simp add: dr ei)
  moreover have "map fst (trace s')
      = map fst (trace s) @ map (\<lambda>i. LedgerWrite (int i) ''cancelled'') [m..<length es]"
    using r(5) m by (simp add: upt_conv_Cons)
  moreover have "\<forall>i<m. rows' ! i = rows ! i"
    using r(8) by simp
  moreover have "\<forall>i. m \<le> i \<and> i < length es \<longrightarrow> status_of (rows' ! i) = ''cancelled''"
  proof (intro allI impI)
    fix i assume i: "m \<le> i \<and> i < length es"
    show "status_of (rows' ! i) = ''cancelled''"
    proof (cases "i = m")
      case True
      with r(8) Suc.prems(3) m show ?thesis by simp
    next
      case False
      with i r(9) show ?thesis by simp
    qed
  qed
  moreover have "acquisition_log s' = acquisition_log s" "experiment_finished s' = experiment_finished s"
    using r(3,4) by simp_all
  ultimately show ?case
    using r(2,6,7) by (intro exI [of _ s'] exI [of _ rows']) simp
qed

lemma acquiring_label_ok:
  assumes "str_ok pn" "str_ok pos" "str_ok (int n)"
  shows "\<exists>label. acquiring_label wl pn pos n = Inr label"
  using assms by (simp add: acquiring_label_def py_str_def)

lemma run_steps_unlabelled:
  assumes "acquiring_label (entry_wavelength e) (entry_pic_num e) (entry_index e + 1)
             (length (acquisition_log s)) = Inl err"
  shows "run_steps w c (e # rest) s = Inl (err, s)"
  using assms by simp

lemma run_steps_completes:
  assumes "acquiring_label (entry_wavelength e) (entry_pic_num e) (entry_index e + 1)
             (length (acquisition_log s)) = Inr label"
    and "step_outcome w c (entry_index e) = Completes f sz"
  shows "run_steps w c (e # rest) s
           = (case log_update w (begin_step label e s) (entry_index e) (entry_wavelength e)
                     (entry_pic_num e) (entry_expected_name e) f ''completed'' (int sz) of
                Inl x \<Rightarrow> Inl x
              | Inr s2 \<Rightarrow> run_steps w c rest (emit [StatusLabel (completed_label e f)] s2))"
  using assms by (simp add: step_outcome_def split: sum.splits option.splits)

lemma run_steps_times_out:
  assumes "acquiring_label (entry_wavelength e) (entry_pic_num e) (entry_index e + 1)
             (length (acquisition_log s)) = Inr label"
    and "step_outcome w c (entry_index e) = TimesOut"
  shows "run_steps w c (e # rest) s
           = (case log_update w (begin_step label e s) (entry_index e) (entry_wavelength e)
                     (entry_pic_num e) (entry_expected_name e) [] ''timeout'' 0 of
                Inl x \<Rightarrow> Inl x
              | Inr s2 \<Rightarrow>
                  if askyesno w (entry_index e)
                  then run_steps w c rest (emit [AskYesNo (entry_index e)] s2)
                  else cancel_remaining w
                         (slice_from (entry_index e + 1)
                            (acquisition_log (emit [AskYesNo (entry_index e)] s2)))
                         (emit [AskYesNo (entry_index e)] s2))"
  using assms by (simp add: step_outcome_def Let_def split: sum.splits option.splits)

lemma run_steps_fails:
  assumes "acquiring_label (entry_wavelength e) (entry_pic_num e) (entry_index e + 1)
             (length (acquisition_log s)) = Inr label"
    and "step_outcome w c (entry_index e) = Fails"
  shows "\<exists>err. run_steps w c (e # rest) s = Inl (err, begin_step label e s)"
  using assms by (simp add: step_outcome_def split: sum.splits option.splits)


lemma step_label:
  assumes "list_all (\<lambda>e. str_ok (entry_index e) \<and> str_ok (entry_pic_num e)) es"
    and "map entry_index es = map int [0..<length es]" "j < length es" "str_ok (int (length es))"
  shows "\<exists>label. acquiring_label (entry_wavelength (es ! j)) (entry_pic_num (es ! j))
                   (int j + 1) (length es) = Inr label"
proof -
  have "str_ok (int j + 1)"
    using _ _ assms(4) by (rule str_ok_mono) (use assms(3) in simp_all)
  with entries_writable(2) [OF assms(1,3,2)] show ?thesis
    using assms(4) by (rule acquiring_label_ok)
qed

lemma continuing_step:
  assumes "acquisition_log s = es" "log_file s = Some (header # rows)" "indexed_rows rows"
    and "length rows = length es" "map entry_index es = map int [0..<length es]"
    and "j < length es" "continues w c (int j)"
    and "list_all (\<lambda>e. str_ok (entry_index e) \<and> str_ok (entry_pic_num e)) es"
    and "str_ok (int (length es))"
  shows "\<exists>s2 r seg. run_steps w c (drop j es) s = run_steps w c (drop (Suc j) es) s2
           \<and> acquisition_log s2 = es \<and> experiment_finished s2 = experiment_finished s
           \<and> log_file s2 = Some (header # rows[j := r]) \<and> row_index r = Some (int j)
           \<and> status_of r = recorded_status w c (int j) \<and> trace s2 = trace s @ seg"
proof -
  let ?e = "es ! j"
  from step_label [OF assms(8,5,6,9)] obtain label where
    la: "acquiring_label (entry_wavelength ?e) (entry_pic_num ?e) (int j + 1) (length es) = Inr label"
    by (elim exE)
  let ?s1 = "begin_step label ?e s"
  have dr: "drop j es = ?e # drop (Suc j) es"
    using assms(6) by (simp add: Cons_nth_drop_Suc)
  have ei: "entry_index ?e = int j"
    using assms(5,6) by (rule entry_index_nth)
  have s1: "log_file ?s1 = Some (header # rows)" "acquisition_log ?s1 = es"
    "experiment_finished ?s1 = experiment_finished s"
    using assms(1,2) by (simp_all add: begin_step_def emit_def)
  have j: "j < length rows"
    using assms(4,6) by simp
  note ok = entries_writable [OF assms(8,6,5)]
  have la': "acquiring_label (entry_wavelength ?e) (entry_pic_num ?e) (entry_index ?e + 1)
               (length (acquisition_log s)) = Inr label"
    using la by (simp add: ei assms(1))
  show ?thesis
  proof (cases "step_outcome w c (int j)")
    case (Completes f sz)
    with assms(7) have "str_ok (int sz)"
      by (simp add: continues_def)
    with ok have wr: "writable (int j) (entry_pic_num ?e) (int sz)"
      by (simp add: writable_iff)
    let ?r = "ledger_row (int j) (entry_wavelength ?e) (entry_pic_num ?e) (entry_expected_name ?e)
                f ''completed'' (now w (length (trace ?s1))) (int sz)"
    let ?s2 = "emit [StatusLabel (completed_label ?e f)]
                 (?s1\<lparr>log_file := Some (header # rows[j := ?r]),
                       trace := trace ?s1 @ [(LedgerWrite (int j) ''completed'',
                                              Some (header # rows[j := ?r]))]\<rparr>)"
    have "run_steps w c (?e # drop (Suc j) es) s = run_steps w c (drop (Suc j) es) ?s2"
      using Completes log_update_indexed [OF s1(1) assms(3) j wr]
      by (simp add: run_steps_completes [OF la'] ei del: run_steps.simps)
    then have "run_steps w c (drop j es) s = run_steps w c (drop (Suc j) es) ?s2"
      by (simp only: dr)
    moreover have "trace ?s2 = trace s @ (drop (length (trace s)) (trace ?s2))"
      by (simp add: emit_def begin_step_def)
    ultimately show ?thesis
      using Completes s1 ok
      by (intro exI [of _ ?s2] exI [of _ ?r] exI [of _ "drop (length (trace s)) (trace ?s2)"])
         (simp add: emit_def recorded_status_def)
  next
    case TimesOut
    with assms(7) have yes: "askyesno w (int j)"
      by (simp add: continues_def)
    from ok have wr: "writable (int j) (entry_pic_num ?e) 0"
      by (simp add: writable_iff)
    let ?r = "ledger_row (int j) (entry_wavelength ?e) (entry_pic_num ?e) (entry_expected_name ?e)
                [] ''timeout'' (now w (length (trace ?s1))) 0"
    let ?s2 = "emit [AskYesNo (int j)]
                 (?s1\<lparr>log_file := Some (header # rows[j := ?r]),
                       trace := trace ?s1 @ [(LedgerWrite (int j) ''timeout'',
                                              Some (header # rows[j := ?r]))]\<rparr>)"
    have "run_steps w c (?e # drop (Suc j) es) s = run_steps w c (drop (Suc j) es) ?s2"
      using TimesOut yes log_update_indexed [OF s1(1) assms(3) j wr]
      by (simp add: run_steps_times_out [OF la'] ei del: run_steps.simps)
    then have "run_steps w c (drop j es) s = run_steps w c (drop (Suc j) es) ?s2"
      by (simp only: dr)
    moreover have "trace ?s2 = trace s @ (drop (length (trace s)) (trace ?s2))"
      by (simp add: emit_def begin_step_def)
    ultimately show ?thesis
      using TimesOut s1 ok
      by (intro exI [of _ ?s2] exI [of _ ?r] exI [of _ "drop (length (trace s)) (trace ?s2)"])
         (simp add: emit_def recorded_status_def)
  next
    case Fails
    with assms(7) show ?thesis
      by (simp add: continues_def)
  qed
qed

lemma slice_from_Suc: "slice_from (int k + 1) es = drop (Suc k) es"
  by (simp add: slice_from_def nat_add_distrib)

lemma stopping_step:
  assumes "acquisition_log s = es" "log_file s = Some (header # rows)" "indexed_rows rows"
    and "length rows = length es" "map entry_index es = map int [0..<length es]"
    and "k < length es" "step_outcome w c (int k) = TimesOut" "\<not> askyesno w (int k)"
    and "list_all (\<lambda>e. str_ok (entry_index e) \<and> str_ok (entry_pic_num e)) es"
    and "str_ok (int (length es))"
  shows "\<exists>s' rows' pre. run_steps w c (drop k es) s = Inr s'
           \<and> log_file s' = Some (header # rows') \<and> acquisition_log s' = es
           \<and> experiment_finished s' = experiment_finished s
           \<and> map fst (trace s')
               = map fst (trace s) @ pre @ [LedgerWrite (int k) ''timeout'', AskYesNo (int k)]
                   @ map (\<lambda>i. LedgerWrite (int i) ''cancelled'') [Suc k..<length es]
           \<and> indexed_rows rows' \<and> length rows' = length es
           \<and> (\<forall>i<k. rows' ! i = rows ! i) \<and> status_of (rows' ! k) = ''timeout''
           \<and> (\<forall>i. k < i \<and> i < length es \<longrightarrow> status_of (rows' ! i) = ''cancelled'')"
proof -
  let ?e = "es ! k"
  from step_label [OF assms(9,5,6,10)] obtain label where
    la: "acquiring_label (entry_wavelength ?e) (entry_pic_num ?e) (int k + 1) (length es) = Inr label"
    by (elim exE)
  let ?s1 = "begin_step label ?e s"
  let ?pre = "[StatusLabel label,
               DeviceWrite (''gowave '' @ entry_wavelength ?e), Sleep 5, SendTrigger,
               WaitForNewFile (int k)]"
  have dr: "drop k es = ?e # drop (Suc k) es"
    using assms(6) by (simp add: Cons_nth_drop_Suc)
  have ei: "entry_index ?e = int k"
    using assms(5,6) by (rule entry_index_nth)
  have la': "acquiring_label (entry_wavelength ?e) (entry_pic_num ?e) (entry_index ?e + 1)
               (length (acquisition_log s)) = Inr label"
    using la by (simp add: ei assms(1))
  have s1: "log_file ?s1 = Some (header # rows)" "acquisition_log ?s1 = es"
    "map fst (trace ?s1) = map fst (trace s) @ ?pre"
    "experiment_finished ?s1 = experiment_finished s"
    using assms(1,2) by (simp_all add: begin_step_def emit_def ei)
  have k: "k < length rows"
    using assms(4,6) by simp
  note ok = entries_writable [OF assms(9,6,5)]
  then have wr: "writable (int k) (entry_pic_num ?e) 0"
    by (simp add: writable_iff)
  let ?r = "ledger_row (int k) (entry_wavelength ?e) (entry_pic_num ?e) (entry_expected_name ?e)
              [] ''timeout'' (now w (length (trace ?s1))) 0"
  let ?s3 = "emit [AskYesNo (int k)]
               (?s1\<lparr>log_file := Some (header # rows[k := ?r]),
                     trace := trace ?s1 @ [(LedgerWrite (int k) ''timeout'',
                                            Some (header # rows[k := ?r]))]\<rparr>)"
  have "run_steps w c (?e # drop (Suc k) es) s = cancel_remaining w (drop (Suc k) es) ?s3"
    using assms(7,8) log_update_indexed [OF s1(1) assms(3) k wr] s1(2)
    by (simp add: run_steps_times_out [OF la'] ei slice_from_Suc emit_def del: run_steps.simps)
  then have run: "run_steps w c (drop k es) s = cancel_remaining w (drop (Suc k) es) ?s3"
    by (simp only: dr)
  have lf: "log_file ?s3 = Some (header # rows[k := ?r])"
    by (simp add: emit_def)
  have ix: "indexed_rows (rows[k := ?r])"
    using assms(3) by (rule indexed_rows_update) (simp add: ok)
  have len: "length (rows[k := ?r]) = length es"
    using assms(4) by simp
  have sk: "Suc k \<le> length es"
    using assms(6) by simp
  from cancel_remaining_ok [OF lf ix len assms(5) sk assms(9), of w]
  obtain s' rows' where
    r: "cancel_remaining w (drop (Suc k) es) ?s3 = Inr s'"
       "log_file s' = Some (header # rows')" "acquisition_log s' = acquisition_log ?s3"
       "experiment_finished s' = experiment_finished ?s3"
       "map fst (trace s') = map fst (trace ?s3)
          @ map (\<lambda>i. LedgerWrite (int i) ''cancelled'') [Suc k..<length es]"
       "indexed_rows rows'" "length rows' = length es"
       "\<forall>i<Suc k. rows' ! i = rows[k := ?r] ! i"
       "\<forall>i. Suc k \<le> i \<and> i < length es \<longrightarrow> status_of (rows' ! i) = ''cancelled''"
    by (elim exE conjE) (rule that; assumption)
  have "run_steps w c (drop k es) s = Inr s'"
    unfolding run by (rule r(1))
  moreover have "map fst (trace s')
      = map fst (trace s) @ ?pre @ [LedgerWrite (int k) ''timeout'', AskYesNo (int k)]
          @ map (\<lambda>i. LedgerWrite (int i) ''cancelled'') [Suc k..<length es]"
    using r(5) s1(3) by (simp add: emit_def)
  moreover have "acquisition_log s' = es" "experiment_finished s' = experiment_finished s"
    using r(3,4) s1(2,4) by (simp_all add: emit_def)
  moreover have "\<forall>i<k. rows' ! i = rows ! i"
    using r(8) by simp
  moreover have "status_of (rows' ! k) = ''timeout''"
    using r(8) k by simp
  moreover have "\<forall>i. k < i \<and> i < length es \<longrightarrow> status_of (rows' ! i) = ''cancelled''"
    using r(9) by simp
  ultimately show ?thesis
    using r(2,6,7) by (intro exI [of _ s'] exI [of _ rows'] exI [of _ ?pre]) simp
qed


lemma run_until_stop:
  assumes "acquisition_log s = es" "log_file s = Some (header # rows)" "indexed_rows rows"
    and "length rows = length es" "map entry_index es = map int [0..<length es]"
    and "j \<le> k" "k < length es" "\<forall>i. j \<le> i \<and> i < k \<longrightarrow> continues w c (int i)"
    and "step_outcome w c (int k) = TimesOut" "\<not> askyesno w (int k)"
    and "list_all (\<lambda>e. str_ok (entry_index e) \<and> str_ok (entry_pic_num e)) es"
    and "str_ok (int (length es))"
  shows "\<exists>s' rows' pre. run_steps w c (drop j es) s = Inr s' \<and> acquisition_log s' = es
           \<and> experiment_finished s' = experiment_finished s
           \<and> log_file s' = Some (header # rows') \<and> length rows' = length es
           \<and> (\<forall>i<j. rows' ! i = rows ! i)
           \<and> (\<forall>i. j \<le> i \<and> i < k \<longrightarrow> status_of (rows' ! i) = recorded_status w c (int i))
           \<and> status_of (rows' ! k) = ''timeout''
           \<and> (\<forall>i. k < i \<and> i < length es \<longrightarrow> status_of (rows' ! i) = ''cancelled'')
           \<and> map fst (trace s')
               = map fst (trace s) @ pre @ [LedgerWrite (int k) ''timeout'', AskYesNo (int k)]
                   @ map (\<lambda>i. LedgerWrite (int i) ''cancelled'') [Suc k..<length es]"
  using assms
proof (induction "k - j" arbitrary: j s rows)
  case 0
  then have jk: "j = k"
    by simp
  from stopping_step [OF "0.prems"(1-5) "0.prems"(7) "0.prems"(9,10) "0.prems"(11,12)]
  obtain s' rows' pre where
    r: "run_steps w c (drop k es) s = Inr s'"
       "log_file s' = Some (header # rows')" "acquisition_log s' = es"
       "experiment_finished s' = experiment_finished s"
       "map fst (trace s')
          = map fst (trace s) @ pre @ [LedgerWrite (int k) ''timeout'', AskYesNo (int k)]
              @ map (\<lambda>i. LedgerWrite (int i) ''cancelled'') [Suc k..<length es]"
       "length rows' = length es" "\<forall>i<k. rows' ! i = rows ! i"
       "status_of (rows' ! k) = ''timeout''"
       "\<forall>i. k < i \<and> i < length es \<longrightarrow> status_of (rows' ! i) = ''cancelled''"
    by (elim exE conjE) (rule that; assumption)
  show ?case
    using r unfolding jk
    by (intro exI [of _ s'] exI [of _ rows'] exI [of _ pre]) auto
next
  case (Suc n)
  then have jk: "j < k" and jl: "j < length es" and cj: "continues w c (int j)"
    by simp_all
  from continuing_step [OF Suc.prems(1-5) jl cj Suc.prems(11,12)]
  obtain s2 r seg where
    c: "run_steps w c (drop j es) s = run_steps w c (drop (Suc j) es) s2"
       "acquisition_log s2 = es" "experiment_finished s2 = experiment_finished s"
       "log_file s2 = Some (header # rows[j := r])" "row_index r = Some (int j)"
       "status_of r = recorded_status w c (int j)" "trace s2 = trace s @ seg"
    by (elim exE conjE) (rule that; assumption)
  have n: "n = k - Suc j"
    using Suc.hyps(2) by simp
  have ix: "indexed_rows (rows[j := r])"
    using Suc.prems(3) c(5) by (rule indexed_rows_update)
  have len: "length (rows[j := r]) = length es"
    using Suc.prems(4) by simp
  have le: "Suc j \<le> k"
    using jk by simp
  have co: "\<forall>i. Suc j \<le> i \<and> i < k \<longrightarrow> continues w c (int i)"
    using Suc.prems(8) by simp
  from Suc.hyps(1) [OF n c(2) c(4) ix len Suc.prems(5) le Suc.prems(7) co Suc.prems(9,10)
      Suc.prems(11,12)]
  obtain s' rows' pre where
    r: "run_steps w c (drop (Suc j) es) s2 = Inr s'" "acquisition_log s' = es"
       "experiment_finished s' = experiment_finished s2"
       "log_file s' = Some (header # rows')" "length rows' = length es"
       "\<forall>i<Suc j. rows' ! i = rows[j := r] ! i"
       "\<forall>i. Suc j \<le> i \<and> i < k \<longrightarrow> status_of (rows' ! i) = recorded_status w c (int i)"
       "status_of (rows' ! k) = ''timeout''"
       "\<forall>i. k < i \<and> i < length es \<longrightarrow> status_of (rows' ! i) = ''cancelled''"
       "map fst (trace s')
          = map fst (trace s2) @ pre @ [LedgerWrite (int k) ''timeout'', AskYesNo (int k)]
              @ map (\<lambda>i. LedgerWrite (int i) ''cancelled'') [Suc k..<length es]"
    by (elim exE conjE) (rule that; assumption)
  have a: "\<forall>i<j. rows' ! i = rows ! i"
    using r(6) by simp
  have "rows' ! j = r"
    using r(6) jl Suc.prems(4) by simp
  with c(6) r(7) have b: "\<forall>i. j \<le> i \<and> i < k \<longrightarrow> status_of (rows' ! i) = recorded_status w c (int i)"
    by (metis Suc_leI le_neq_implies_less)
  have t: "map fst (trace s')
      = map fst (trace s) @ (map fst seg @ pre) @ [LedgerWrite (int k) ''timeout'', AskYesNo (int k)]
          @ map (\<lambda>i. LedgerWrite (int i) ''cancelled'') [Suc k..<length es]"
    using r(10) c(7) by simp
  show ?case
    using c(1) r(1,2,4,5,8,9) c(3) r(3) a b t
    by (intro exI [of _ s'] exI [of _ rows'] exI [of _ "map fst seg @ pre"]) simp
qed

lemma row_index_pending_rows:
  "length tss = length es \<Longrightarrow> list_all (\<lambda>e. str_ok (entry_index e)) es
     \<Longrightarrow> map row_index (map2 pending_row es tss) = map (\<lambda>e. Some (entry_index e)) es"
  by (induction es tss rule: list_induct2') simp_all

lemma indexed_pending_rows:
  assumes "length tss = length es" "map entry_index es = map int [0..<length es]"
    and "list_all (\<lambda>e. str_ok (entry_index e)) es"
  shows "indexed_rows (map2 pending_row es tss)"
proof -
  have "map (\<lambda>e. Some (entry_index e)) es = map Some (map entry_index es)"
    by simp
  also have "\<dots> = map (\<lambda>j. Some (int j)) [0..<length es]"
    by (simp add: assms(2))
  finally have "map row_index (map2 pending_row es tss) = map (\<lambda>j. Some (int j)) [0..<length es]"
    using row_index_pending_rows [OF assms(1,3)] by simp
  moreover have "length (map2 pending_row es tss) = length es"
    using assms(1) by simp
  ultimately show ?thesis
    unfolding indexed_rows_def by simp
qed

subsection \<open>What the log file holds for an index\<close>

lemma filter_distinct_map:
  "distinct (map f xs) \<Longrightarrow> i < length xs \<Longrightarrow> filter (\<lambda>x. f x = f (xs ! i)) xs = [xs ! i]"
proof (induction xs arbitrary: i)
  case Nil
  then show ?case by simp
next
  case (Cons x xs)
  show ?case
  proof (cases i)
    case 0
    from Cons.prems(1) have "f x \<notin> f ` set xs"
      by simp
    then have "\<forall>y \<in> set xs. f y \<noteq> f x"
      by (metis imageI)
    then have "filter (\<lambda>y. f y = f x) xs = []"
      by (simp add: filter_empty_conv)
    with 0 show ?thesis by simp
  next
    case (Suc i')
    with Cons.prems have i': "i' < length xs" and d: "distinct (map f xs)"
      by simp_all
    then have "f (xs ! i') \<in> f ` set xs"
      by simp
    with Cons.prems(1) have "f x \<noteq> f (xs ! i')"
      by auto
    with Cons.IH [OF d i'] Suc show ?thesis
      by simp
  qed
qed

lemma records_for_indexed:
  assumes "indexed_rows rows" "i < length rows"
  shows "records_for (int i) rows = [rows ! i]"
proof -
  have "distinct (map (\<lambda>j. Some (int j)) [0..<length rows])"
    by (simp add: distinct_map inj_on_def)
  with assms(1) have "distinct (map row_index rows)"
    by (simp add: indexed_rows_def)
  from filter_distinct_map [OF this assms(2)]
  have "filter (\<lambda>r. row_index r = row_index (rows ! i)) rows = [rows ! i]" .
  moreover have "row_index (rows ! i) = Some (int i)"
    using assms by (simp add: indexed_rows_nth)
  ultimately show ?thesis
    by (simp add: records_for_def)
qed

lemma recorded_indexed:
  assumes "indexed_rows rows" "i < length rows"
  shows "recorded (Some (h # rows)) (int i) = Some (status_of (rows ! i))"
  using records_for_indexed [OF assms] by (simp add: recorded_def)

lemma status_of_pending_row [simp]: "status_of (pending_row e ts) = ''pending''"
  by (simp add: pending_row_def)

lemma recorded_pending:
  assumes "log_inv s n" "i < length (acquisition_log s)"
  shows "recorded (log_file s) (int i) = Some ''pending''"
proof -
  let ?es = "acquisition_log s"
  from assms(1) obtain tss where
    t: "map entry_index ?es = map int [0..<length ?es]" "length tss = length ?es"
       "log_file s = Some (header # map2 pending_row ?es tss)"
       "list_all (\<lambda>e. str_ok (entry_index e)) ?es"
    by (auto simp: log_inv_def list_all_iff)
  have "indexed_rows (map2 pending_row ?es tss)"
    using t(2,1,4) by (rule indexed_pending_rows)
  moreover have "i < length (map2 pending_row ?es tss)"
    using assms(2) t(2) by simp
  ultimately have "recorded (log_file s) (int i)
      = Some (status_of (map2 pending_row ?es tss ! i))"
    unfolding t(3) by (rule recorded_indexed)
  then show ?thesis
    using assms(2) t(2) by simp
qed

subsection \<open>The effects of the pre-population\<close>

lemma quiet_LedgerWrite [simp]: "quiet (LedgerWrite i st)"
  by (simp add: quiet_def is_ask_def is_wait_def)

lemma expected_name_of_cases:
  "(\<exists>e. expected_name_of project wl i = Inl e)
   \<or> (str_ok i \<and> expected_name_of project wl i = Inr (project @ ''_'' @ wl @ ''_'' @ decimal i))"
  by (simp add: expected_name_of_def py_str_def)

lemma prepopulate_recorded:
  assumes "log_inv s ai"
  shows "\<exists>tr. trace (plan_state (prepopulate w c wl is (s, ai))) = trace s @ tr
        \<and> list_all quiet (map fst tr) \<and> list_all in_file tr
        \<and> experiment_finished (plan_state (prepopulate w c wl is (s, ai))) = experiment_finished s
        \<and> (\<forall>s' n. prepopulate w c wl is (s, ai) = Inr (s', n) \<longrightarrow> log_inv s' n)"
  using assms
proof (induction "is" arbitrary: s ai)
  case Nil
  then show ?case by (simp add: plan_state_def)
next
  case (Cons i "is")
  let ?es = "acquisition_log s"
  let ?en = "ctx_project_name c @ ''_'' @ wl @ ''_'' @ decimal i"
  let ?e = "\<lparr>entry_index = int (length ?es), entry_wavelength = wl, entry_pic_num = i,
             entry_expected_name = ?en\<rparr>"
  let ?s1 = "s\<lparr>acquisition_log := ?es @ [?e]\<rparr>"
  from Cons.prems obtain tss where
    ai: "ai = int (length ?es)" and ix: "map entry_index ?es = map int [0..<length ?es]"
    and ok: "list_all (\<lambda>e. str_ok (entry_index e) \<and> str_ok (entry_pic_num e)) ?es"
    and tss: "length tss = length ?es" "log_file s = Some (header # map2 pending_row ?es tss)"
    by (auto simp: log_inv_def)
  from ok have oki: "list_all (\<lambda>e. str_ok (entry_index e)) ?es"
    by (simp add: list_all_iff)
  from expected_name_of_cases [of "ctx_project_name c" wl i]
  show ?case
  proof (elim disjE exE conjE)
    fix e assume "expected_name_of (ctx_project_name c) wl i = Inl e"
    then show ?thesis
      by (simp add: plan_state_def)
  next
    assume i: "str_ok i" and en: "expected_name_of (ctx_project_name c) wl i = Inr ?en"
    let ?f2 = "Some (header # map2 pending_row (?es @ [?e]) (tss @ [now w (length (trace ?s1))]))"
    let ?s2 = "emit [LedgerWrite (int (length ?es)) ''pending''] (?s1\<lparr>log_file := ?f2\<rparr>)"
    have lu: "log_update w ?s1 (int (length ?es)) wl i ?en [] ''pending'' 0
        = (if writable (int (length ?es)) i 0 then Inr ?s2
           else Inl (ValueError, ?s1\<lparr>log_file := Some (header # map2 pending_row ?es tss)\<rparr>))"
      by (subst log_update_pending [where tss = tss and es = ?es and e = ?e])
         (simp_all add: tss ix oki)
    show ?thesis
    proof (cases "writable (int (length ?es)) i 0")
      case False
      with lu en show ?thesis
        by (simp add: plan_state_def ai)
    next
      case True
      then have si: "str_ok (int (length ?es))"
        by (simp add: writable_iff)
      have inv2: "log_inv ?s2 (ai + 1)"
        unfolding log_inv_def
        using ok i si
        by (intro conjI exI [of _ "tss @ [now w (length (trace ?s1))]"])
           (simp_all add: emit_def ai ix tss)
      have "recorded (log_file ?s2) (int (length ?es)) = Some ''pending''"
        using inv2 by (rule recorded_pending) (simp add: emit_def)
      then have inf: "in_file (LedgerWrite (int (length ?es)) ''pending'', ?f2)"
        by (simp add: in_file_def emit_def)
      from Cons.IH [OF inv2] obtain tr where
        r: "trace (plan_state (prepopulate w c wl is (?s2, ai + 1))) = trace ?s2 @ tr"
           "list_all quiet (map fst tr)" "list_all in_file tr"
           "experiment_finished (plan_state (prepopulate w c wl is (?s2, ai + 1)))
              = experiment_finished ?s2"
           "\<forall>s' n. prepopulate w c wl is (?s2, ai + 1) = Inr (s', n) \<longrightarrow> log_inv s' n"
        by (elim exE conjE) (rule that; assumption)
      have step: "prepopulate w c wl (i # is) (s, ai) = prepopulate w c wl is (?s2, ai + 1)"
        using lu True en by (simp add: ai)
      show ?thesis
        unfolding step using r inf
        by (intro exI [of _ "(LedgerWrite (int (length ?es)) ''pending'', ?f2) # tr"])
           (simp add: emit_def)
    qed
  qed
qed

lemma build_plan_recorded:
  assumes "log_inv s ai"
  shows "\<exists>tr. trace (plan_state (build_plan w c tree (s, ai))) = trace s @ tr
        \<and> list_all quiet (map fst tr) \<and> list_all in_file tr
        \<and> experiment_finished (plan_state (build_plan w c tree (s, ai))) = experiment_finished s
        \<and> (\<forall>s' n. build_plan w c tree (s, ai) = Inr (s', n) \<longrightarrow> log_inv s' n)"
  using assms
proof (induction tree arbitrary: s ai)
  case Nil
  then show ?case by (simp add: plan_state_def)
next
  case (Cons row tree)
  obtain wl cell where row: "row = (wl, cell)"
    by (cases row)
  show ?case
  proof (cases "py_int cell")
    case (Inl e)
    then show ?thesis
      by (simp add: row plan_state_def)
  next
    case (Inr n)
    from prepopulate_recorded [OF Cons.prems, of w c wl "[1..n]"] obtain tr1 where
      p: "trace (plan_state (prepopulate w c wl [1..n] (s, ai))) = trace s @ tr1"
         "list_all quiet (map fst tr1)" "list_all in_file tr1"
         "experiment_finished (plan_state (prepopulate w c wl [1..n] (s, ai))) = experiment_finished s"
         "\<forall>s' n'. prepopulate w c wl [1..n] (s, ai) = Inr (s', n') \<longrightarrow> log_inv s' n'"
      by (elim exE conjE) (rule that; assumption)
    show ?thesis
    proof (cases "prepopulate w c wl [1..n] (s, ai)")
      case (Inl x)
      with Inr p show ?thesis
        by (intro exI [of _ tr1]) (simp add: row plan_state_def split: prod.splits)
    next
      case pr: (Inr sa)
      obtain s1 a1 where sa: "sa = (s1, a1)"
        by (cases sa)
      from p(5) pr sa have "log_inv s1 a1"
        by simp
      from Cons.IH [OF this] obtain tr2 where
        r: "trace (plan_state (build_plan w c tree (s1, a1))) = trace s1 @ tr2"
           "list_all quiet (map fst tr2)" "list_all in_file tr2"
           "experiment_finished (plan_state (build_plan w c tree (s1, a1))) = experiment_finished s1"
           "\<forall>s' n. build_plan w c tree (s1, a1) = Inr (s', n) \<longrightarrow> log_inv s' n"
        by (elim exE conjE) (rule that; assumption)
      have step: "build_plan w c (row # tree) (s, ai) = build_plan w c tree (s1, a1)"
        using Inr pr sa by (simp add: row)
      show ?thesis
        unfolding step using p(1-4) r pr sa
        by (intro exI [of _ "tr1 @ tr2"]) (simp add: plan_state_def)
    qed
  qed
qed


lemma not_device_LedgerWrite: "list_all (\<lambda>e. \<not> is_device_command e)
    (map (\<lambda>i. LedgerWrite (int i) ''cancelled'') xs @ [EnableProcessButton, StatusLabel l])"
  by (simp add: list_all_iff is_device_command_def)

text \<open>
  C4. In a run of \<^verbatim>\<open>execute_commands\<close> on a plan with positive counts, adding up to a
  number within what Python turns into text, in which the
  steps before step \<open>k\<close> go on to their successor, step \<open>k\<close> times out and the operator
  answers no: the function returns; in the log file the rows after \<open>k\<close> have status
  cancelled, row \<open>k\<close> has status timeout, and the rows before \<open>k\<close> have the status their
  own step recorded. After the question, the only effects are the ledger writes of the
  cancellations and the closing of the run: no device command.
\<close>

theorem stop_after_declined_timeout:
  assumes "\<forall>(wavelength, cell) \<in> set tree. positive_count cell"
    and "str_ok (sum_list (map (shot_count \<circ> snd) tree))"
    and "ctx_raw_data_folder c \<noteq> []" "ctx_project_name c \<noteq> []" "ctx_output_path c \<noteq> []"
    and "k < length (expand tree)"
    and "\<forall>i<k. continues w c (int i)"
    and "step_outcome w c (int k) = TimesOut" "\<not> askyesno w (int k)"
  shows "\<exists>s' rows pre post. execute_commands w c tree s = Inr s'
           \<and> log_file s' = Some (header # rows) \<and> length rows = length (expand tree)
           \<and> (\<forall>i<k. status_of (rows ! i) = recorded_status w c (int i))
           \<and> status_of (rows ! k) = ''timeout''
           \<and> (\<forall>i. k < i \<and> i < length rows \<longrightarrow> status_of (rows ! i) = ''cancelled'')
           \<and> map fst (trace s')
               = map fst (trace s) @ pre @ [LedgerWrite (int k) ''timeout'', AskYesNo (int k)] @ post
           \<and> post = map (\<lambda>i. LedgerWrite (int i) ''cancelled'') [Suc k..<length rows]
                      @ [EnableProcessButton, StatusLabel ''Acquisition complete!'']
           \<and> list_all (\<lambda>e. \<not> is_device_command e) post"
proof -
  let ?s0 = "s\<lparr>acquisition_log := [], log_file := create_acquisition_log_file\<rparr>"
  let ?n = "sum_list (map (shot_count \<circ> snd) tree)"
  have inv0: "log_inv ?s0 0"
    by (simp add: log_inv_def create_acquisition_log_file_def)
  have "str_ok (0 + ?n)"
    using assms(2) by simp
  from build_plan_ok [OF inv0 assms(1) this, of w c]
  obtain s1 where
    b: "build_plan w c tree (?s0, 0) = Inr (s1, ?n)" "log_inv s1 ?n"
       "map (\<lambda>e. (entry_wavelength e, entry_pic_num e)) (acquisition_log s1) = expand tree"
    by (elim exE conjE) simp
  let ?es = "acquisition_log s1"
  from b(2) obtain tss where
    t: "map entry_index ?es = map int [0..<length ?es]" "length tss = length ?es"
       "log_file s1 = Some (header # map2 pending_row ?es tss)"
       "list_all (\<lambda>e. str_ok (entry_index e) \<and> str_ok (entry_pic_num e)) ?es"
       "?n = int (length ?es)"
    unfolding log_inv_def by (elim exE conjE) (rule that; assumption)
  from t(4) have oki: "list_all (\<lambda>e. str_ok (entry_index e)) ?es"
    by (simp add: list_all_iff)
  have sl: "str_ok (int (length ?es))"
    using assms(2) t(5) by simp
  have "length (map (\<lambda>e. (entry_wavelength e, entry_pic_num e)) ?es) = length (expand tree)"
    by (simp only: b(3))
  then have len: "length ?es = length (expand tree)"
    by simp
  from build_plan_recorded [OF inv0, of w c tree] obtain tr1 where
    "trace (plan_state (build_plan w c tree (?s0, 0))) = trace ?s0 @ tr1"
    by (elim exE conjE) (rule that; assumption)
  then have tr1: "trace s1 = trace s @ tr1"
    by (simp add: b(1) plan_state_def)
  let ?s2 = "emit [OpenResource, TakeSnapshot] s1"
  let ?rows = "map2 pending_row ?es tss"
  have inv: "acquisition_log ?s2 = ?es" "log_file ?s2 = Some (header # ?rows)"
    "indexed_rows ?rows" "length ?rows = length ?es"
    using t(1,2,3) oki by (simp_all add: emit_def indexed_pending_rows)
  have k: "k < length ?es"
    using assms(6) len by simp
  have co: "\<forall>i. 0 \<le> i \<and> i < k \<longrightarrow> continues w c (int i)"
    using assms(7) by simp
  have k0: "0 \<le> k"
    by simp
  from run_until_stop [OF inv t(1) k0 k co assms(8,9) t(4) sl]
  obtain s3 rows' pre where
    r: "run_steps w c (drop 0 ?es) ?s2 = Inr s3"
       "log_file s3 = Some (header # rows')" "length rows' = length ?es"
       "\<forall>i. 0 \<le> i \<and> i < k \<longrightarrow> status_of (rows' ! i) = recorded_status w c (int i)"
       "status_of (rows' ! k) = ''timeout''"
       "\<forall>i. k < i \<and> i < length ?es \<longrightarrow> status_of (rows' ! i) = ''cancelled''"
       "map fst (trace s3)
          = map fst (trace ?s2) @ pre @ [LedgerWrite (int k) ''timeout'', AskYesNo (int k)]
              @ map (\<lambda>i. LedgerWrite (int i) ''cancelled'') [Suc k..<length ?es]"
    by (elim exE conjE) (rule that; assumption)
  let ?s' = "emit [EnableProcessButton, StatusLabel ''Acquisition complete!'']
               (s3\<lparr>experiment_finished := True\<rparr>)"
  let ?post = "map (\<lambda>i. LedgerWrite (int i) ''cancelled'') [Suc k..<length rows']
                 @ [EnableProcessButton, StatusLabel ''Acquisition complete!'']"
  have ex: "execute_commands w c tree s = Inr ?s'"
    using assms(3,4,5) b(1) r(1) by (simp add: execute_commands_def)
  have tr: "map fst (trace ?s')
      = map fst (trace s) @ (map fst tr1 @ [OpenResource, TakeSnapshot] @ pre)
          @ [LedgerWrite (int k) ''timeout'', AskYesNo (int k)] @ ?post"
    using r(7) r(3) tr1 by (simp add: emit_def)
  show ?thesis
  proof (intro exI conjI)
    show "execute_commands w c tree s = Inr ?s'"
      by (rule ex)
    show "log_file ?s' = Some (header # rows')"
      using r(2) by (simp add: emit_def)
    show "length rows' = length (expand tree)"
      using r(3) len by simp
    show "\<forall>i<k. status_of (rows' ! i) = recorded_status w c (int i)"
      using r(4) by simp
    show "status_of (rows' ! k) = ''timeout''"
      by (rule r(5))
    show "\<forall>i. k < i \<and> i < length rows' \<longrightarrow> status_of (rows' ! i) = ''cancelled''"
      using r(6) r(3) by simp
    show "map fst (trace ?s')
        = map fst (trace s) @ (map fst tr1 @ [OpenResource, TakeSnapshot] @ pre)
            @ [LedgerWrite (int k) ''timeout'', AskYesNo (int k)] @ ?post"
      by (rule tr)
    show "?post = map (\<lambda>i. LedgerWrite (int i) ''cancelled'') [Suc k..<length rows']
                 @ [EnableProcessButton, StatusLabel ''Acquisition complete!'']"
      by (rule refl)
    show "list_all (\<lambda>e. \<not> is_device_command e) ?post"
      by (rule not_device_LedgerWrite)
  qed
qed


theorem stop_after_declined_timeout_witness:
  "list_all (\<lambda>(wavelength, cell). positive_count cell) demo_plan
   \<and> str_ok (sum_list (map (shot_count \<circ> snd) demo_plan))
   \<and> ctx_raw_data_folder demo_context \<noteq> [] \<and> ctx_project_name demo_context \<noteq> []
   \<and> ctx_output_path demo_context \<noteq> [] \<and> 1 < length (expand demo_plan)
   \<and> continues (demo_world False) demo_context (int 0)
   \<and> step_outcome (demo_world False) demo_context (int 1) = TimesOut
   \<and> \<not> askyesno (demo_world False) (int 1)
   \<and> (\<exists>s' rows pre post.
          execute_commands (demo_world False) demo_context demo_plan initial_state = Inr s'
        \<and> log_file s' = Some (header # rows) \<and> length rows = length (expand demo_plan)
        \<and> (\<forall>i<1. status_of (rows ! i) = recorded_status (demo_world False) demo_context (int i))
        \<and> status_of (rows ! 1) = ''timeout''
        \<and> (\<forall>i. 1 < i \<and> i < length rows \<longrightarrow> status_of (rows ! i) = ''cancelled'')
        \<and> map fst (trace s')
            = map fst (trace initial_state) @ pre
                @ [LedgerWrite (int 1) ''timeout'', AskYesNo (int 1)] @ post
        \<and> post = map (\<lambda>i. LedgerWrite (int i) ''cancelled'') [Suc 1..<length rows]
                   @ [EnableProcessButton, StatusLabel ''Acquisition complete!'']
        \<and> list_all (\<lambda>e. \<not> is_device_command e) post)"
proof -
  have h1: "\<forall>(wavelength, cell) \<in> set demo_plan. positive_count cell"
    by code_simp
  have h0: "str_ok (sum_list (map (shot_count \<circ> snd) demo_plan))"
    by code_simp
  have h2: "ctx_raw_data_folder demo_context \<noteq> []" "ctx_project_name demo_context \<noteq> []"
    "ctx_output_path demo_context \<noteq> []"
    by (simp_all add: demo_context_def)
  have h5: "1 < length (expand demo_plan)"
    by code_simp
  have c0: "continues (demo_world False) demo_context (int 0)"
    by code_simp
  then have h6: "\<forall>i<1. continues (demo_world False) demo_context (int i)"
    by simp
  have l1: "list_all (\<lambda>(wavelength, cell). positive_count cell) demo_plan"
    using h1 by (simp add: list_all_iff)
  have "step_outcome (demo_world False) demo_context 1 = TimesOut"
    by code_simp
  then have h7: "step_outcome (demo_world False) demo_context (int 1) = TimesOut"
    by simp
  have h8: "\<not> askyesno (demo_world False) (int 1)"
    by (simp add: demo_world_def)
  from l1 h0 h2 h5 c0 h7 h8
    stop_after_declined_timeout [OF h1 h0 h2 h5 h6 h7 h8, of initial_state]
  show ?thesis
    by (intro conjI) assumption+
qed

section \<open>Recording before deciding\<close>

lemma final_state_simps [simp]: "final_state (Inl (e, s)) = s" "final_state (Inr s) = s"
  by (simp_all add: final_state_def)

lemma outcome_first_free: "\<not> is_wait a \<Longrightarrow> \<not> is_ask b \<Longrightarrow> outcome_first a b"
  by (cases a; cases b) (simp_all add: outcome_first_def is_wait_def is_ask_def)

lemma successively_quiet: "list_all quiet tr \<Longrightarrow> successively outcome_first tr"
  by (induction tr rule: induct_list012) (simp_all add: quiet_def outcome_first_free)

lemma ordered_quiet: "list_all quiet tr \<Longrightarrow> ordered_effects tr"
  by (cases tr) (simp_all add: ordered_effects_def successively_quiet quiet_def)

lemma settled_quiet: "list_all quiet tr \<Longrightarrow> settled tr"
  by (cases tr rule: rev_cases) (simp_all add: settled_def quiet_def)

lemma ordered_append:
  assumes "ordered_effects a" "settled a" "ordered_effects b"
  shows "ordered_effects (a @ b)"
proof (cases "a = [] \<or> b = []")
  case True
  with assms show ?thesis by auto
next
  case False
  with assms have "outcome_first (last a) (hd b)"
    by (simp add: outcome_first_free ordered_effects_def settled_def)
  with assms False show ?thesis
    by (simp add: ordered_effects_def successively_append_iff)
qed

lemma settled_append: "settled b \<Longrightarrow> b \<noteq> [] \<or> settled a \<Longrightarrow> settled (a @ b)"
  by (cases "b = []") (simp_all add: settled_def)

subsection \<open>Effects and the file they come with\<close>

lemma watched_append: "watched (a @ b) = watched a @ watched b"
  by (induction a) (auto split: event.splits)

lemma watched_quiet: "list_all quiet (map fst tr) \<Longrightarrow> watched tr = []"
  by (induction tr) (auto simp: quiet_def is_wait_def split: event.splits)

lemma watched_Cons: "watched (x # tr) = watched [x] @ watched tr"
  using watched_append [of "[x]" tr] by simp

lemma kept_from_append: "kept_from ks (a @ b) = (kept_from ks a \<and> kept_from (ks @ watched a) b)"
proof (induction a arbitrary: ks)
  case Nil
  show ?case by simp
next
  case (Cons x a)
  have "kept_from ks ((x # a) @ b)
      = (list_all (outcome_in (snd x)) ks \<and> kept_from (ks @ watched [x]) (a @ b))"
    by simp
  also have "\<dots> = (list_all (outcome_in (snd x)) ks \<and> kept_from (ks @ watched [x]) a
      \<and> kept_from ((ks @ watched [x]) @ watched a) b)"
    by (simp only: Cons.IH)
  also have "(ks @ watched [x]) @ watched a = ks @ watched (x # a)"
    using watched_Cons [of x a] by simp
  finally show ?case
    by simp
qed

lemma kept_from_prefix:
  "kept_from (ks @ ks') tr
     = (list_all (\<lambda>x. list_all (outcome_in (snd x)) ks) tr \<and> kept_from ks' tr)"
proof (induction tr arbitrary: ks')
  case Nil
  show ?case by simp
next
  case (Cons x tr)
  from Cons.IH [of "ks' @ watched [x]"] show ?case
    by auto
qed

lemma kept_from_split:
  assumes "kept_from ks tr" "tr = a @ (WaitForNewFile k, g) # b"
  shows "list_all (\<lambda>x. outcome_in (snd x) k) b"
proof -
  from assms have "kept_from (ks @ watched a) ((WaitForNewFile k, g) # b)"
    by (simp add: kept_from_append)
  then have "kept_from (((ks @ watched a) @ [k]) @ []) b"
    by simp
  then have "list_all (\<lambda>x. list_all (outcome_in (snd x)) ((ks @ watched a) @ [k])) b"
    by (simp only: kept_from_prefix)
  then show ?thesis
    by (simp add: list_all_iff)
qed

lemma kept_from_quiet:
  assumes "list_all quiet (map fst tr)"
  shows "kept_from [] tr"
  using assms
  by (induction tr) (auto simp: quiet_def is_wait_def split: event.splits)

lemma kept_from_const:
  "\<not> is_wait e \<Longrightarrow> \<not> is_wait e' \<Longrightarrow> list_all (outcome_in f) ks \<Longrightarrow> kept_from ks [(e, f), (e', f)]"
  by (auto simp: is_wait_def split: event.splits)

lemma step_segment:
  assumes "list_all (outcome_in f0) ks"
  shows "kept_from ks [(StatusLabel l, f0), (DeviceWrite d, f0), (Sleep n, f0), (SendTrigger, f0),
           (WaitForNewFile k, f0)]"
    and "watched [(StatusLabel l, f0), (DeviceWrite d, f0), (Sleep n, f0), (SendTrigger, f0),
           (WaitForNewFile k, f0)] = [k]"
    and "list_all in_file [(StatusLabel l, f0), (DeviceWrite d, f0), (Sleep n, f0),
           (SendTrigger, f0), (WaitForNewFile k, f0)]"
  using assms by (simp_all add: in_file_def)

subsection \<open>The state between two steps\<close>

lemma run_inv_outcomes:
  assumes "run_inv es j s" "j \<le> length es"
  shows "list_all (outcome_in (log_file s)) (map int [0..<j])"
proof -
  from assms(1) obtain rows where
    r: "log_file s = Some (header # rows)" "indexed_rows rows" "length rows = length es"
       "list_all (\<lambda>i. status_of (rows ! i) = ''completed'' \<or> status_of (rows ! i) = ''timeout'')
          [0..<j]"
    unfolding run_inv_def by (elim exE conjE) (rule that; assumption)
  have "outcome_in (log_file s) (int i)" if "i < j" for i
  proof -
    from that assms(2) r(3) have "i < length rows"
      by simp
    with r(2) have "recorded (log_file s) (int i) = Some (status_of (rows ! i))"
      unfolding r(1) by (rule recorded_indexed)
    moreover from r(4) that
    have "status_of (rows ! i) = ''completed'' \<or> status_of (rows ! i) = ''timeout''"
      by (simp add: list_all_iff)
    ultimately show ?thesis
      by (auto simp: outcome_in_def)
  qed
  then show ?thesis
    by (simp add: list_all_iff)
qed

lemma run_inv_emit [simp]: "run_inv es j (emit evs s) = run_inv es j s"
  by (simp add: run_inv_def emit_def)

lemma run_inv_begin_step [simp]: "run_inv es j (begin_step label e s) = run_inv es j s"
  by (simp add: begin_step_def)

lemma run_inv_entry:
  assumes "run_inv es j s" "i < length es"
  shows "entry_index (es ! i) = int i" "acquisition_log s = es"
  using assms by (simp_all add: run_inv_def entry_index_nth)

text \<open>
  One ledger write between two steps: it raises and adds no effect, or it returns with the row
  of its index replaced and the write as the one new effect.
\<close>

lemma log_update_run:
  assumes "run_inv es j s" "i < length es"
  shows "(\<exists>e f. log_update w s (int i) wl pn en raw st sz = Inl (e, s\<lparr>log_file := f\<rparr>))
       \<or> (\<exists>s2. log_update w s (int i) wl pn en raw st sz = Inr s2
             \<and> experiment_finished s2 = experiment_finished s
             \<and> trace s2 = trace s @ [(LedgerWrite (int i) st, log_file s2)]
             \<and> recorded (log_file s2) (int i) = Some st
             \<and> (j \<le> i \<longrightarrow> run_inv es j s2)
             \<and> (i = j \<and> (st = ''completed'' \<or> st = ''timeout'') \<longrightarrow> run_inv es (Suc j) s2))"
proof -
  from assms(1) obtain rows where
    r: "acquisition_log s = es" "map entry_index es = map int [0..<length es]"
       "log_file s = Some (header # rows)" "indexed_rows rows" "length rows = length es"
       "list_all (\<lambda>i. status_of (rows ! i) = ''completed'' \<or> status_of (rows ! i) = ''timeout'')
          [0..<j]"
    unfolding run_inv_def by (elim exE conjE) (rule that; assumption)
  have i: "i < length rows"
    using assms(2) r(5) by simp
  show ?thesis
  proof (cases "writable (int i) pn sz")
    case False
    from log_update_unwritable [OF r(3,4) i False, of w wl en raw st] show ?thesis
      by blast
  next
    case True
    then have si: "str_ok (int i)"
      by (simp add: writable_iff)
    let ?new = "ledger_row (int i) wl pn en raw st (now w (length (trace s))) sz"
    let ?rows = "rows[i := ?new]"
    let ?s2 = "s\<lparr>log_file := Some (header # ?rows),
                 trace := trace s @ [(LedgerWrite (int i) st, Some (header # ?rows))]\<rparr>"
    have lu: "log_update w s (int i) wl pn en raw st sz = Inr ?s2"
      using r(3,4) i True by (rule log_update_indexed)
    have ix: "indexed_rows ?rows"
      using r(4) by (rule indexed_rows_update) (simp add: si)
    have len: "length ?rows = length es"
      using r(5) by simp
    have "recorded (Some (header # ?rows)) (int i) = Some (status_of (?rows ! i))"
      using ix by (rule recorded_indexed) (simp add: i)
    then have rec: "recorded (log_file ?s2) (int i) = Some st"
      using i by simp
    have keep: "run_inv es j ?s2" if "j \<le> i"
      unfolding run_inv_def
      using r(1,2,6) ix len that
      by (intro conjI exI [of _ ?rows]) (simp_all add: list_all_iff)
    have next_step: "run_inv es (Suc j) ?s2" if "i = j" "st = ''completed'' \<or> st = ''timeout''"
      unfolding run_inv_def
      using r(1,2,6) ix len that i
      by (intro conjI exI [of _ ?rows]) (auto simp: list_all_iff less_Suc_eq)
    show ?thesis
      using lu rec keep next_step
      by (intro disjI2 exI [of _ ?s2]) simp
  qed
qed

lemma cancel_recorded:
  assumes "run_inv es j s" "j \<le> m" "m \<le> length es"
  shows "\<exists>tr. trace (final_state (cancel_remaining w (drop m es) s)) = trace s @ tr
          \<and> list_all quiet (map fst tr) \<and> list_all in_file tr
          \<and> list_all (\<lambda>x. list_all (outcome_in (snd x)) (map int [0..<j])) tr
          \<and> (\<forall>s'. cancel_remaining w (drop m es) s = Inr s' \<longrightarrow> run_inv es j s')"
  using assms
proof (induction "length es - m" arbitrary: m s)
  case 0
  then have "drop m es = []"
    by simp
  with "0.prems"(1) show ?case
    by simp
next
  case (Suc n)
  then have m: "m < length es"
    by simp
  let ?e = "es ! m"
  have dr: "drop m es = ?e # drop (Suc m) es"
    using m by (simp add: Cons_nth_drop_Suc)
  have ei: "entry_index ?e = int m"
    using Suc.prems(1) m by (rule run_inv_entry)
  let ?lu = "log_update w s (int m) (entry_wavelength ?e) (entry_pic_num ?e)
               (entry_expected_name ?e) [] ''cancelled'' 0"
  from log_update_run [OF Suc.prems(1) m, of w "entry_wavelength ?e" "entry_pic_num ?e"
      "entry_expected_name ?e" "[]" "''cancelled''" 0]
  show ?case
  proof (elim disjE exE conjE)
    fix e f assume "?lu = Inl (e, s\<lparr>log_file := f\<rparr>)"
    then show ?thesis
      by (simp add: dr ei)
  next
    fix s2
    assume lu: "?lu = Inr s2"
      and t2: "trace s2 = trace s @ [(LedgerWrite (int m) ''cancelled'', log_file s2)]"
      and rec: "recorded (log_file s2) (int m) = Some ''cancelled''"
      and keep: "j \<le> m \<longrightarrow> run_inv es j s2"
    from keep Suc.prems(2) have inv2: "run_inv es j s2"
      by simp
    have n: "n = length es - Suc m"
      using Suc.hyps(2) by simp
    have jm: "j \<le> Suc m" "Suc m \<le> length es"
      using Suc.prems(2) m by simp_all
    from Suc.hyps(1) [OF n inv2 jm] obtain tr where
      r: "trace (final_state (cancel_remaining w (drop (Suc m) es) s2)) = trace s2 @ tr"
         "list_all quiet (map fst tr)" "list_all in_file tr"
         "list_all (\<lambda>x. list_all (outcome_in (snd x)) (map int [0..<j])) tr"
         "\<forall>s'. cancel_remaining w (drop (Suc m) es) s2 = Inr s' \<longrightarrow> run_inv es j s'"
      by (elim exE conjE) (rule that; assumption)
    have step: "cancel_remaining w (drop m es) s = cancel_remaining w (drop (Suc m) es) s2"
      using lu by (simp add: dr ei)
    have "j \<le> length es"
      using Suc.prems(2,3) by simp
    with inv2 have o2: "list_all (outcome_in (log_file s2)) (map int [0..<j])"
      by (rule run_inv_outcomes)
    show ?thesis
      unfolding step using r t2 rec o2
      by (intro exI [of _ "(LedgerWrite (int m) ''cancelled'', log_file s2) # tr"])
         (simp add: in_file_def)
  qed
qed

lemma begin_step_trace:
  "trace (begin_step label e s) = trace s @
     [(StatusLabel label, log_file s),
      (DeviceWrite (''gowave '' @ entry_wavelength e), log_file s), (Sleep 5, log_file s),
      (SendTrigger, log_file s), (WaitForNewFile (entry_index e), log_file s)]"
  by (simp add: begin_step_def emit_def)

lemma ordered_begin:
  "ordered_effects [StatusLabel l, DeviceWrite d, Sleep n, SendTrigger, WaitForNewFile i]"
  by (simp add: ordered_effects_def outcome_first_def is_ask_def)

lemma ordered_completed:
  "ordered_effects [StatusLabel l, DeviceWrite d, Sleep n, SendTrigger, WaitForNewFile i,
     LedgerWrite i ''completed'', StatusLabel l']"
  by (simp add: ordered_effects_def outcome_first_def is_ask_def)

lemma ordered_timeout:
  "ordered_effects [StatusLabel l, DeviceWrite d, Sleep n, SendTrigger, WaitForNewFile i,
     LedgerWrite i ''timeout'', AskYesNo i]"
  by (simp add: ordered_effects_def outcome_first_def is_ask_def)

lemma settled_simps:
  "settled (xs @ [StatusLabel l])" "settled (xs @ [AskYesNo i])" "settled (xs @ [LedgerWrite i st])"
  by (simp_all add: settled_def is_wait_def)

lemma watched_pair: "\<not> is_wait e1 \<Longrightarrow> \<not> is_wait e2 \<Longrightarrow> watched [(e1, f1), (e2, f2)] = []"
  by (auto simp: is_wait_def split: event.splits)

lemma compose_step:
  assumes "kept_from ks b" "watched b = [k]" "list_all in_file b"
    and "\<not> is_wait e1" "\<not> is_wait e2" "in_file (e1, f1)" "in_file (e2, f1)"
    and "list_all (outcome_in f1) (ks @ [k])"
    and "kept_from (ks @ [k]) tr" "list_all in_file tr"
  shows "kept_from ks (b @ [(e1, f1), (e2, f1)] @ tr)"
    and "list_all in_file (b @ [(e1, f1), (e2, f1)] @ tr)"
    and "watched (b @ [(e1, f1), (e2, f1)] @ tr) = k # watched tr"
proof -
  have w2: "watched [(e1, f1), (e2, f1)] = []"
    using assms(4,5) by (rule watched_pair)
  have k2: "kept_from (ks @ [k]) [(e1, f1), (e2, f1)]"
    using assms(4,5,8) by (rule kept_from_const)
  show "kept_from ks (b @ [(e1, f1), (e2, f1)] @ tr)"
    using assms(1,9) k2 by (simp only: kept_from_append assms(2) w2 append_Nil2 simp_thms)
  show "list_all in_file (b @ [(e1, f1), (e2, f1)] @ tr)"
    using assms(3,6,7,10) by simp
  have "watched ([(e1, f1), (e2, f1)] @ tr) = watched tr"
    using watched_append [of "[(e1, f1), (e2, f1)]" tr] w2 by simp
  then show "watched (b @ [(e1, f1), (e2, f1)] @ tr) = k # watched tr"
    using watched_append [of b "[(e1, f1), (e2, f1)] @ tr"] assms(2) by simp
qed

lemma upt_Suc_int: "map int [0..<Suc j] = map int [0..<j] @ [int j]"
  by simp

text \<open>
  The driver loop from a state between two steps: its effects are in order, each ledger write
  and each question comes with the file that holds it, and every effect after the return of a
  step's watcher comes with a file that holds the step's outcome.
\<close>

lemma run_steps_recorded:
  assumes "run_inv es j s" "j \<le> length es"
  shows "\<exists>tr. trace (final_state (run_steps w c (drop j es) s)) = trace s @ tr
          \<and> ordered_effects (map fst tr)
          \<and> ((\<exists>s'. run_steps w c (drop j es) s = Inr s') \<longrightarrow> settled (map fst tr))
          \<and> list_all in_file tr \<and> kept_from (map int [0..<j]) tr
          \<and> (\<forall>s'. run_steps w c (drop j es) s = Inr s' \<longrightarrow>
                list_all (outcome_in (log_file s')) (map int [0..<j] @ watched tr))"
  using assms
proof (induction "length es - j" arbitrary: j s)
  case 0
  then have "drop j es = []"
    by simp
  with run_inv_outcomes [OF "0.prems"] show ?case
    by (simp add: ordered_effects_def settled_def)
next
  case (Suc n)
  then have j: "j < length es"
    by simp
  let ?e = "es ! j"
  let ?rest = "drop (Suc j) es"
  let ?K = "map int [0..<j]"
  let ?f0 = "log_file s"
  have dr: "drop j es = ?e # ?rest"
    using j by (simp add: Cons_nth_drop_Suc)
  have ei: "entry_index ?e = int j" and al: "acquisition_log s = es"
    using run_inv_entry [OF Suc.prems(1) j] by simp_all
  have o0: "list_all (outcome_in ?f0) ?K"
    using Suc.prems by (rule run_inv_outcomes)
  have n: "n = length es - Suc j"
    using Suc.hyps(2) by simp
  have sj: "Suc j \<le> length es"
    using j by simp
  show ?case
  proof (cases "acquiring_label (entry_wavelength ?e) (entry_pic_num ?e) (entry_index ?e + 1)
                  (length (acquisition_log s))")
    case (Inl err)
    then have "run_steps w c (?e # ?rest) s = Inl (err, s)"
      by (rule run_steps_unlabelled)
    then show ?thesis
      by (simp add: dr ordered_effects_def)
  next
    case la: (Inr label)
    let ?s1 = "begin_step label ?e s"
    let ?b = "[(StatusLabel label, ?f0),
               (DeviceWrite (''gowave '' @ entry_wavelength ?e), ?f0), (Sleep 5, ?f0),
               (SendTrigger, ?f0), (WaitForNewFile (int j), ?f0)]"
    have t1: "trace ?s1 = trace s @ ?b"
      using begin_step_trace [of label ?e s] by (simp only: ei)
    have inv1: "run_inv es j ?s1"
      using Suc.prems(1) by simp
    note seg = step_segment [OF o0, of label "''gowave '' @ entry_wavelength ?e" 5 "int j"]
    have mb: "map fst ?b = [StatusLabel label, DeviceWrite (''gowave '' @ entry_wavelength ?e),
        Sleep 5, SendTrigger, WaitForNewFile (int j)]"
      by simp
    have raised: "\<exists>tr. trace (final_state r) = trace s @ tr
          \<and> ordered_effects (map fst tr)
          \<and> ((\<exists>s'. r = Inr s') \<longrightarrow> settled (map fst tr))
          \<and> list_all in_file tr \<and> kept_from ?K tr
          \<and> (\<forall>s'. r = Inr s' \<longrightarrow> list_all (outcome_in (log_file s')) (?K @ watched tr))"
      if "r = Inl (err, s1)" "trace s1 = trace ?s1" for r err s1
      using that t1 seg(1,3) ordered_begin [of label "''gowave '' @ entry_wavelength ?e" 5 "int j"]
      by (intro exI [of _ ?b]) (simp only: mb final_state_simps sum.simps simp_thms)
    show ?thesis
    proof (cases "step_outcome w c (int j)")
      case Fails
      then have "step_outcome w c (entry_index ?e) = Fails"
        by (simp only: ei)
      from run_steps_fails [OF la this, of ?rest] obtain err where
        "run_steps w c (?e # ?rest) s = Inl (err, ?s1)"
        by (elim exE)
      then have "run_steps w c (drop j es) s = Inl (err, ?s1)"
        by (simp only: dr)
      then show ?thesis
        by (rule raised) (rule refl)
    next
      case (Completes f sz)
      then have "step_outcome w c (entry_index ?e) = Completes f sz"
        by (simp only: ei)
      note eq = run_steps_completes [OF la this, of ?rest]
      let ?lu = "log_update w ?s1 (int j) (entry_wavelength ?e) (entry_pic_num ?e)
                   (entry_expected_name ?e) f ''completed'' (int sz)"
      from log_update_run [OF inv1 j, of w "entry_wavelength ?e" "entry_pic_num ?e"
          "entry_expected_name ?e" f "''completed''" "int sz"]
      show ?thesis
      proof (elim disjE exE conjE)
        fix err lf assume "?lu = Inl (err, ?s1\<lparr>log_file := lf\<rparr>)"
        with eq have "run_steps w c (?e # ?rest) s = Inl (err, ?s1\<lparr>log_file := lf\<rparr>)"
          by (simp add: ei)
        then have "run_steps w c (drop j es) s = Inl (err, ?s1\<lparr>log_file := lf\<rparr>)"
          by (simp only: dr)
        then show ?thesis
          by (rule raised) simp
      next
        fix s2
        assume lu: "?lu = Inr s2"
          and t2: "trace s2 = trace ?s1 @ [(LedgerWrite (int j) ''completed'', log_file s2)]"
          and rec: "recorded (log_file s2) (int j) = Some ''completed''"
          and nx: "j = j \<and> (''completed'' = ''completed'' \<or> ''completed'' = ''timeout'')
                     \<longrightarrow> run_inv es (Suc j) s2"
        let ?f1 = "log_file s2"
        let ?s3 = "emit [StatusLabel (completed_label ?e f)] s2"
        let ?c = "[(LedgerWrite (int j) ''completed'', ?f1),
                   (StatusLabel (completed_label ?e f), ?f1)]"
        from nx have inv2: "run_inv es (Suc j) s2"
          by simp
        then have inv3: "run_inv es (Suc j) ?s3"
          by simp
        from eq lu have "run_steps w c (?e # ?rest) s = run_steps w c ?rest ?s3"
          by (simp add: ei)
        then have run: "run_steps w c (drop j es) s = run_steps w c ?rest ?s3"
          by (simp only: dr)
        have t3: "trace ?s3 = trace s @ ?b @ ?c"
          using t1 t2 by (simp add: emit_def)
        have o1: "list_all (outcome_in ?f1) (?K @ [int j])"
          using run_inv_outcomes [OF inv2 sj] by (simp only: upt_Suc_int)
        from Suc.hyps(1) [OF n inv3 sj] obtain tr where
          ih: "trace (final_state (run_steps w c ?rest ?s3)) = trace ?s3 @ tr"
              "ordered_effects (map fst tr)"
              "(\<exists>s'. run_steps w c ?rest ?s3 = Inr s') \<longrightarrow> settled (map fst tr)"
              "list_all in_file tr" "kept_from (map int [0..<Suc j]) tr"
              "\<forall>s'. run_steps w c ?rest ?s3 = Inr s' \<longrightarrow>
                 list_all (outcome_in (log_file s')) (map int [0..<Suc j] @ watched tr)"
          by (elim exE conjE) (rule that; assumption)
        have ih5: "kept_from (?K @ [int j]) tr"
          using ih(5) by (simp only: upt_Suc_int)
        have i1: "in_file (LedgerWrite (int j) ''completed'', ?f1)"
          using rec by (simp add: in_file_def)
        have i2: "in_file (StatusLabel (completed_label ?e f), ?f1)"
          by (simp add: in_file_def)
        have q: "\<not> is_wait (LedgerWrite (int j) ''completed'')"
          "\<not> is_wait (StatusLabel (completed_label ?e f))"
          by (simp_all add: is_wait_def)
        note cs = compose_step [OF seg(1,2,3) q i1 i2 o1 ih5 ih(4)]
        let ?seg = "map fst (?b @ ?c)"
        have ms: "?seg = [StatusLabel label, DeviceWrite (''gowave '' @ entry_wavelength ?e),
            Sleep 5, SendTrigger, WaitForNewFile (int j), LedgerWrite (int j) ''completed'',
            StatusLabel (completed_label ?e f)]"
          by simp
        have o: "ordered_effects ?seg"
          unfolding ms by (rule ordered_completed)
        have st: "settled ?seg"
          unfolding ms
          using settled_simps(1) [of "[StatusLabel label,
            DeviceWrite (''gowave '' @ entry_wavelength ?e), Sleep 5, SendTrigger,
            WaitForNewFile (int j), LedgerWrite (int j) ''completed'']" "completed_label ?e f"]
          by simp
        have "ordered_effects (?seg @ map fst tr)"
          using o st ih(2) by (rule ordered_append)
        then have g2: "ordered_effects (map fst (?b @ ?c @ tr))"
          by simp
        have g3: "(\<exists>s'. run_steps w c ?rest ?s3 = Inr s') \<longrightarrow> settled (map fst (?b @ ?c @ tr))"
        proof
          assume "\<exists>s'. run_steps w c ?rest ?s3 = Inr s'"
          with ih(3) have "settled (map fst tr)" ..
          then have "settled (?seg @ map fst tr)"
            by (rule settled_append) (rule disjI2 [OF st])
          then show "settled (map fst (?b @ ?c @ tr))"
            by simp
        qed
        have g1: "trace (final_state (run_steps w c ?rest ?s3)) = trace s @ (?b @ ?c @ tr)"
          using ih(1) t3 by simp
        have g6: "\<forall>s'. run_steps w c ?rest ?s3 = Inr s' \<longrightarrow>
            list_all (outcome_in (log_file s')) (?K @ watched (?b @ ?c @ tr))"
          using ih(6) unfolding cs(3) upt_Suc_int by simp
        show ?thesis
          unfolding run using g1 g2 g3 cs(2) cs(1) g6
          by (intro exI [of _ "?b @ ?c @ tr"] conjI)
      qed
    next
      case TimesOut
      then have "step_outcome w c (entry_index ?e) = TimesOut"
        by (simp only: ei)
      note eq = run_steps_times_out [OF la this, of ?rest]
      let ?lu = "log_update w ?s1 (int j) (entry_wavelength ?e) (entry_pic_num ?e)
                   (entry_expected_name ?e) [] ''timeout'' 0"
      from log_update_run [OF inv1 j, of w "entry_wavelength ?e" "entry_pic_num ?e"
          "entry_expected_name ?e" "[]" "''timeout''" 0]
      show ?thesis
      proof (elim disjE exE conjE)
        fix err lf assume "?lu = Inl (err, ?s1\<lparr>log_file := lf\<rparr>)"
        with eq have "run_steps w c (?e # ?rest) s = Inl (err, ?s1\<lparr>log_file := lf\<rparr>)"
          by (simp add: ei)
        then have "run_steps w c (drop j es) s = Inl (err, ?s1\<lparr>log_file := lf\<rparr>)"
          by (simp only: dr)
        then show ?thesis
          by (rule raised) simp
      next
        fix s2
        assume lu: "?lu = Inr s2"
          and t2: "trace s2 = trace ?s1 @ [(LedgerWrite (int j) ''timeout'', log_file s2)]"
          and rec: "recorded (log_file s2) (int j) = Some ''timeout''"
          and nx: "j = j \<and> (''timeout'' = ''completed'' \<or> ''timeout'' = ''timeout'')
                     \<longrightarrow> run_inv es (Suc j) s2"
        let ?f1 = "log_file s2"
        let ?s3 = "emit [AskYesNo (int j)] s2"
        let ?c = "[(LedgerWrite (int j) ''timeout'', ?f1), (AskYesNo (int j), ?f1)]"
        let ?next = "if askyesno w (int j) then run_steps w c ?rest ?s3
                     else cancel_remaining w ?rest ?s3"
        from nx have inv2: "run_inv es (Suc j) s2"
          by simp
        then have inv3: "run_inv es (Suc j) ?s3"
          by simp
        have al3: "acquisition_log ?s3 = es"
          using inv3 j by (rule run_inv_entry)
        from eq lu have "run_steps w c (?e # ?rest) s = ?next"
          by (simp add: ei al3 slice_from_Suc)
        then have run: "run_steps w c (drop j es) s = ?next"
          by (simp only: dr)
        have t3: "trace ?s3 = trace s @ ?b @ ?c"
          using t1 t2 by (simp add: emit_def)
        have o1: "list_all (outcome_in ?f1) (?K @ [int j])"
          using run_inv_outcomes [OF inv2 sj] by (simp only: upt_Suc_int)
        have "\<exists>tr. trace (final_state ?next) = trace ?s3 @ tr
              \<and> ordered_effects (map fst tr)
              \<and> ((\<exists>s'. ?next = Inr s') \<longrightarrow> settled (map fst tr))
              \<and> list_all in_file tr \<and> kept_from (map int [0..<Suc j]) tr
              \<and> (\<forall>s'. ?next = Inr s' \<longrightarrow>
                    list_all (outcome_in (log_file s')) (map int [0..<Suc j] @ watched tr))"
        proof (cases "askyesno w (int j)")
          case True
          with Suc.hyps(1) [OF n inv3 sj] show ?thesis
            by simp
        next
          case False
          from cancel_recorded [OF inv3 le_refl sj, of w] obtain tr where
            c: "trace (final_state (cancel_remaining w ?rest ?s3)) = trace ?s3 @ tr"
               "list_all quiet (map fst tr)" "list_all in_file tr"
               "list_all (\<lambda>x. list_all (outcome_in (snd x)) (map int [0..<Suc j])) tr"
               "\<forall>s'. cancel_remaining w ?rest ?s3 = Inr s' \<longrightarrow> run_inv es (Suc j) s'"
            by (elim exE conjE) (rule that; assumption)
          have "kept_from (map int [0..<Suc j] @ []) tr"
            using c(4) kept_from_quiet [OF c(2)] by (simp only: kept_from_prefix simp_thms)
          then have k: "kept_from (map int [0..<Suc j]) tr"
            by simp
          have f: "\<forall>s'. cancel_remaining w ?rest ?s3 = Inr s' \<longrightarrow>
              list_all (outcome_in (log_file s')) (map int [0..<Suc j] @ watched tr)"
          proof (intro allI impI)
            fix s' assume "cancel_remaining w ?rest ?s3 = Inr s'"
            with c(5) have "run_inv es (Suc j) s'"
              by simp
            then have "list_all (outcome_in (log_file s')) (map int [0..<Suc j])"
              using sj by (rule run_inv_outcomes)
            then show "list_all (outcome_in (log_file s')) (map int [0..<Suc j] @ watched tr)"
              by (simp only: watched_quiet [OF c(2)] append_Nil2)
          qed
          show ?thesis
            using False c(1,3) k f ordered_quiet [OF c(2)] settled_quiet [OF c(2)]
            by (intro exI [of _ tr]) simp
        qed
        then obtain tr where
          ih: "trace (final_state ?next) = trace ?s3 @ tr"
              "ordered_effects (map fst tr)"
              "(\<exists>s'. ?next = Inr s') \<longrightarrow> settled (map fst tr)"
              "list_all in_file tr" "kept_from (map int [0..<Suc j]) tr"
              "\<forall>s'. ?next = Inr s' \<longrightarrow>
                 list_all (outcome_in (log_file s')) (map int [0..<Suc j] @ watched tr)"
          by (elim exE conjE) (rule that; assumption)
        have ih5: "kept_from (?K @ [int j]) tr"
          using ih(5) by (simp only: upt_Suc_int)
        have i1: "in_file (LedgerWrite (int j) ''timeout'', ?f1)"
          using rec by (simp add: in_file_def)
        have i2: "in_file (AskYesNo (int j), ?f1)"
          using rec by (simp add: in_file_def)
        have q: "\<not> is_wait (LedgerWrite (int j) ''timeout'')" "\<not> is_wait (AskYesNo (int j))"
          by (simp_all add: is_wait_def)
        note cs = compose_step [OF seg(1,2,3) q i1 i2 o1 ih5 ih(4)]
        let ?seg = "map fst (?b @ ?c)"
        have ms: "?seg = [StatusLabel label, DeviceWrite (''gowave '' @ entry_wavelength ?e),
            Sleep 5, SendTrigger, WaitForNewFile (int j), LedgerWrite (int j) ''timeout'',
            AskYesNo (int j)]"
          by simp
        have o: "ordered_effects ?seg"
          unfolding ms by (rule ordered_timeout)
        have st: "settled ?seg"
          unfolding ms
          using settled_simps(2) [of "[StatusLabel label,
            DeviceWrite (''gowave '' @ entry_wavelength ?e), Sleep 5, SendTrigger,
            WaitForNewFile (int j), LedgerWrite (int j) ''timeout'']" "int j"]
          by simp
        have "ordered_effects (?seg @ map fst tr)"
          using o st ih(2) by (rule ordered_append)
        then have g2: "ordered_effects (map fst (?b @ ?c @ tr))"
          by simp
        have g3: "(\<exists>s'. ?next = Inr s') \<longrightarrow> settled (map fst (?b @ ?c @ tr))"
        proof
          assume "\<exists>s'. ?next = Inr s'"
          with ih(3) have "settled (map fst tr)" ..
          then have "settled (?seg @ map fst tr)"
            by (rule settled_append) (rule disjI2 [OF st])
          then show "settled (map fst (?b @ ?c @ tr))"
            by simp
        qed
        have g1: "trace (final_state ?next) = trace s @ (?b @ ?c @ tr)"
          using ih(1) t3 by simp
        have g6: "\<forall>s'. ?next = Inr s' \<longrightarrow>
            list_all (outcome_in (log_file s')) (?K @ watched (?b @ ?c @ tr))"
          using ih(6) unfolding cs(3) upt_Suc_int by simp
        show ?thesis
          unfolding run using g1 g2 g3 cs(2) cs(1) g6
          by (intro exI [of _ "?b @ ?c @ tr"] conjI)
      qed
    qed
  qed
qed

lemma ordered_opening: "ordered_effects [OpenResource, TakeSnapshot]" "settled [OpenResource, TakeSnapshot]"
  by (simp_all add: ordered_effects_def settled_def outcome_first_def is_ask_def is_wait_def)

lemma ordered_closing: "ordered_effects [EnableProcessButton, StatusLabel l]"
  by (simp add: ordered_effects_def outcome_first_def is_ask_def)

lemma log_inv_run_inv:
  assumes "log_inv s n"
  shows "run_inv (acquisition_log s) 0 s"
proof -
  let ?es = "acquisition_log s"
  from assms obtain tss where
    t: "map entry_index ?es = map int [0..<length ?es]" "length tss = length ?es"
       "log_file s = Some (header # map2 pending_row ?es tss)"
       "list_all (\<lambda>e. str_ok (entry_index e)) ?es"
    by (auto simp: log_inv_def list_all_iff)
  have "indexed_rows (map2 pending_row ?es tss)"
    using t(2,1,4) by (rule indexed_pending_rows)
  with t(1,2,3) show ?thesis
    unfolding run_inv_def by (intro conjI exI [of _ "map2 pending_row ?es tss"]) simp_all
qed

lemma recorded_statement:
  assumes "ordered_effects (map fst tr)" "list_all in_file tr" "kept_from [] tr"
  shows "successively outcome_first (map fst tr) \<and> (tr = [] \<or> \<not> is_ask (fst (hd tr)))
       \<and> (\<forall>(e, f) \<in> set tr. \<forall>k.
              (\<forall>st. e = LedgerWrite k st \<longrightarrow> recorded f k = Some st)
            \<and> (e = AskYesNo k \<longrightarrow> recorded f k = Some ''timeout''))
       \<and> (\<forall>a g b k. tr = a @ (WaitForNewFile k, g) # b
              \<longrightarrow> list_all (\<lambda>x. outcome_in (snd x) k) b)"
proof (intro conjI)
  show "successively outcome_first (map fst tr)"
    using assms(1) by (simp add: ordered_effects_def)
  show "tr = [] \<or> \<not> is_ask (fst (hd tr))"
    using assms(1) by (cases tr) (simp_all add: ordered_effects_def)
  show "\<forall>(e, f) \<in> set tr. \<forall>k.
              (\<forall>st. e = LedgerWrite k st \<longrightarrow> recorded f k = Some st)
            \<and> (e = AskYesNo k \<longrightarrow> recorded f k = Some ''timeout'')"
  proof (intro ballI)
    fix x assume "x \<in> set tr"
    with assms(2) have "in_file x"
      by (simp add: list_all_iff)
    then show "case x of (e, f) \<Rightarrow> \<forall>k.
              (\<forall>st. e = LedgerWrite k st \<longrightarrow> recorded f k = Some st)
            \<and> (e = AskYesNo k \<longrightarrow> recorded f k = Some ''timeout'')"
      by (cases x) (auto simp: in_file_def)
  qed
  show "\<forall>a g b k. tr = a @ (WaitForNewFile k, g) # b
              \<longrightarrow> list_all (\<lambda>x. outcome_in (snd x) k) b"
    using kept_from_split [OF assms(3)] by blast
qed

text \<open>
  C9. In every run of \<^verbatim>\<open>execute_commands\<close>, whether it returns or raises, the effects it
  adds, each taken with the log file as it is when the effect takes place, are such that: when
  the watcher has returned, the next effect, if there is one, is the ledger write of that
  step's outcome, completed or timeout; the operator is asked about a step only directly after
  the ledger write of that step's time-out, never as the first effect; every ledger write
  comes with a file that holds, as the one record of its index, the status written, and the
  question to the operator comes with a file that holds the time-out of the step it asks
  about; and every effect after the return of a step's watcher, the commands of the next
  step among them, comes with a file that holds the outcome of that step, completed or
  timeout, as the one record of its index.
\<close>

theorem outcome_recorded_before_decision:
  "\<exists>tr. trace (final_state (execute_commands w c tree s)) = trace s @ tr
        \<and> successively outcome_first (map fst tr) \<and> (tr = [] \<or> \<not> is_ask (fst (hd tr)))
        \<and> (\<forall>(e, f) \<in> set tr. \<forall>k.
               (\<forall>st. e = LedgerWrite k st \<longrightarrow> recorded f k = Some st)
             \<and> (e = AskYesNo k \<longrightarrow> recorded f k = Some ''timeout''))
        \<and> (\<forall>a g b k. tr = a @ (WaitForNewFile k, g) # b
               \<longrightarrow> list_all (\<lambda>x. outcome_in (snd x) k) b)"
proof -
  let ?s0 = "s\<lparr>acquisition_log := [], log_file := create_acquisition_log_file\<rparr>"
  let ?p = "build_plan w c tree (?s0, 0)"
  have goal: "\<exists>tr. trace (final_state r) = trace s @ tr
        \<and> successively outcome_first (map fst tr) \<and> (tr = [] \<or> \<not> is_ask (fst (hd tr)))
        \<and> (\<forall>(e, f) \<in> set tr. \<forall>k.
               (\<forall>st. e = LedgerWrite k st \<longrightarrow> recorded f k = Some st)
             \<and> (e = AskYesNo k \<longrightarrow> recorded f k = Some ''timeout''))
        \<and> (\<forall>a g b k. tr = a @ (WaitForNewFile k, g) # b
               \<longrightarrow> list_all (\<lambda>x. outcome_in (snd x) k) b)"
    if "trace (final_state r) = trace s @ tr" "ordered_effects (map fst tr)"
      "list_all in_file tr" "kept_from [] tr" for tr r
    using that(1) recorded_statement [OF that(2,3,4)] by (intro exI [of _ tr] conjI) simp_all
  have inv0: "log_inv ?s0 0"
    by (simp add: log_inv_def create_acquisition_log_file_def)
  from build_plan_recorded [OF inv0, of w c tree] obtain tr1 where
    p: "trace (plan_state ?p) = trace s @ tr1" "list_all quiet (map fst tr1)"
       "list_all in_file tr1" "\<forall>s' n. ?p = Inr (s', n) \<longrightarrow> log_inv s' n"
    by (elim exE conjE) (rule that; simp)
  note o1 = ordered_quiet [OF p(2)]
  note k1 = kept_from_quiet [OF p(2)]
  note w1 = watched_quiet [OF p(2)]
  consider (no_folder) "ctx_raw_data_folder c = []"
    | (no_project) "ctx_raw_data_folder c \<noteq> []" "ctx_project_name c = [] \<or> ctx_output_path c = []"
    | (plan_raises) x where "ctx_raw_data_folder c \<noteq> []"
        "\<not> (ctx_project_name c = [] \<or> ctx_output_path c = [])" "?p = Inl x"
    | (runs) s1 n where "ctx_raw_data_folder c \<noteq> []"
        "\<not> (ctx_project_name c = [] \<or> ctx_output_path c = [])" "?p = Inr (s1, n)"
    by (cases ?p) auto
  then show ?thesis
  proof cases
    case no_folder
    let ?tr = "[(ShowError ''Please select the Golden Eye raw data folder first!'', log_file s)]"
    show ?thesis
    proof (rule goal [of _ ?tr])
      show "trace (final_state (execute_commands w c tree s)) = trace s @ ?tr"
        by (simp add: no_folder execute_commands_def emit_def)
      show "ordered_effects (map fst ?tr)"
        by (simp add: ordered_effects_def is_ask_def)
      show "list_all in_file ?tr"
        by (simp add: in_file_def)
      show "kept_from [] ?tr"
        by simp
    qed
  next
    case no_project
    show ?thesis
    proof (rule goal [of _ "[]"])
      show "trace (final_state (execute_commands w c tree s)) = trace s @ []"
        using no_project by (simp add: execute_commands_def)
    qed (simp_all add: ordered_effects_def)
  next
    case plan_raises
    obtain e s' where x: "x = (e, s')"
      by (cases x)
    show ?thesis
    proof (rule goal [of _ tr1])
      show "trace (final_state (execute_commands w c tree s)) = trace s @ tr1"
        using plan_raises p(1) x by (simp add: execute_commands_def plan_state_def)
    qed (rule o1 p(3) k1)+
  next
    case runs
    let ?es = "acquisition_log s1"
    let ?s2 = "emit [OpenResource, TakeSnapshot] s1"
    let ?r = "run_steps w c ?es ?s2"
    let ?o = "[(OpenResource, log_file s1), (TakeSnapshot, log_file s1)]"
    from runs(3) p(1) have t1: "trace s1 = trace s @ tr1"
      by (simp add: plan_state_def)
    from runs(3) p(4) have "log_inv s1 n"
      by simp
    then have "run_inv ?es 0 s1"
      by (rule log_inv_run_inv)
    then have inv2: "run_inv ?es 0 ?s2"
      by simp
    from run_steps_recorded [OF inv2 le0, of w c] obtain tr2 where
      r: "trace (final_state ?r) = trace ?s2 @ tr2" "ordered_effects (map fst tr2)"
         "(\<exists>s'. ?r = Inr s') \<longrightarrow> settled (map fst tr2)"
         "list_all in_file tr2" "kept_from [] tr2"
         "\<forall>s'. ?r = Inr s' \<longrightarrow> list_all (outcome_in (log_file s')) (watched tr2)"
      by (elim exE conjE) (rule that; simp)
    have mo: "map fst (tr1 @ ?o) = map fst tr1 @ [OpenResource, TakeSnapshot]"
      by simp
    have oo: "ordered_effects (map fst (tr1 @ ?o))"
      unfolding mo using o1 settled_quiet [OF p(2)] ordered_opening(1) by (rule ordered_append)
    have so: "settled (map fst (tr1 @ ?o))"
      unfolding mo using ordered_opening(2) by (rule settled_append) simp
    have io: "list_all in_file (tr1 @ ?o)"
      using p(3) by (simp add: in_file_def)
    have wo: "watched (tr1 @ ?o) = []"
      by (simp add: watched_append w1)
    have ko: "kept_from [] (tr1 @ ?o)"
      using k1 by (simp add: kept_from_append w1)
    let ?t = "(tr1 @ ?o) @ tr2"
    have o2: "ordered_effects (map fst ?t)"
      using ordered_append [OF oo so r(2)] by simp
    have i2: "list_all in_file ?t"
      using io r(4) by simp
    have k2: "kept_from [] ?t"
      using ko r(5) by (simp only: kept_from_append [of _ "tr1 @ ?o"] wo append_Nil simp_thms)
    have w2: "watched ?t = watched tr2"
      by (simp only: watched_append [of "tr1 @ ?o"] wo append_Nil)
    have t2: "trace (final_state ?r) = trace s @ ?t"
      using r(1) t1 by (simp add: emit_def)
    show ?thesis
    proof (cases ?r)
      case (Inl y)
      with runs have "execute_commands w c tree s = ?r"
        by (simp add: execute_commands_def)
      with t2 have "trace (final_state (execute_commands w c tree s)) = trace s @ ?t"
        by simp
      then show ?thesis
        using o2 i2 k2 by (rule goal)
    next
      case (Inr s3)
      let ?cl = "[(EnableProcessButton, log_file s3),
                  (StatusLabel ''Acquisition complete!'', log_file s3)]"
      from Inr r(3) have "settled (map fst tr2)"
        by blast
      then have "settled (map fst (tr1 @ ?o) @ map fst tr2)"
        by (rule settled_append) (rule disjI2 [OF so])
      then have s2: "settled (map fst ?t)"
        by simp
      have "ordered_effects (map fst ?t @ [EnableProcessButton, StatusLabel ''Acquisition complete!''])"
        using o2 s2 ordered_closing by (rule ordered_append)
      then have o3: "ordered_effects (map fst (?t @ ?cl))"
        by simp
      have i3: "list_all in_file (?t @ ?cl)"
        using i2 by (simp add: in_file_def)
      from Inr r(6) have "list_all (outcome_in (log_file s3)) (watched tr2)"
        by simp
      then have "kept_from ([] @ watched ?t) ?cl"
        unfolding w2 by (simp add: is_wait_def)
      with k2 have k3: "kept_from [] (?t @ ?cl)"
        by (simp only: kept_from_append simp_thms)
      have "trace (final_state (execute_commands w c tree s)) = trace s @ (?t @ ?cl)"
        using runs Inr t2 by (simp add: execute_commands_def emit_def)
      then show ?thesis
        using o3 i3 k3 by (rule goal)
    qed
  qed
qed

lemma demo_run_trace:
  "map fst (trace (final_state (execute_commands (demo_world True) demo_context demo_plan
       initial_state)))
     = [LedgerWrite 0 ''pending'', LedgerWrite 1 ''pending'', LedgerWrite 2 ''pending'',
        OpenResource, TakeSnapshot,
        StatusLabel ''Acquiring: 500nm #1 (1/3)'', DeviceWrite ''gowave 500'', Sleep 5,
        SendTrigger, WaitForNewFile 0, LedgerWrite 0 ''completed'',
        StatusLabel ''Completed: 500nm #1 -> new.bin'',
        StatusLabel ''Acquiring: 500nm #2 (2/3)'', DeviceWrite ''gowave 500'', Sleep 5,
        SendTrigger, WaitForNewFile 1, LedgerWrite 1 ''timeout'', AskYesNo 1,
        StatusLabel ''Acquiring: 600nm #1 (3/3)'', DeviceWrite ''gowave 600'', Sleep 5,
        SendTrigger, WaitForNewFile 2, LedgerWrite 2 ''completed'',
        StatusLabel ''Completed: 600nm #1 -> new.bin'',
        EnableProcessButton, StatusLabel ''Acquisition complete!'']"
  by code_simp

theorem outcome_recorded_before_decision_witness:
  "\<exists>tr. trace (final_state (execute_commands (demo_world True) demo_context demo_plan
               initial_state)) = trace initial_state @ tr
        \<and> successively outcome_first (map fst tr) \<and> (tr = [] \<or> \<not> is_ask (fst (hd tr)))
        \<and> (\<exists>f. (AskYesNo 1, f) \<in> set tr \<and> recorded f 1 = Some ''timeout'')
        \<and> (\<exists>f. (LedgerWrite 0 ''completed'', f) \<in> set tr \<and> recorded f 0 = Some ''completed'')
        \<and> (\<exists>a g b. tr = a @ (WaitForNewFile 0, g) # b \<and> b \<noteq> []
               \<and> list_all (\<lambda>x. outcome_in (snd x) 0) b)"
proof -
  from outcome_recorded_before_decision [of "demo_world True" demo_context demo_plan initial_state]
  obtain tr where
    t: "trace (final_state (execute_commands (demo_world True) demo_context demo_plan
          initial_state)) = trace initial_state @ tr"
       "successively outcome_first (map fst tr)" "tr = [] \<or> \<not> is_ask (fst (hd tr))"
       "\<forall>(e, f) \<in> set tr. \<forall>k.
               (\<forall>st. e = LedgerWrite k st \<longrightarrow> recorded f k = Some st)
             \<and> (e = AskYesNo k \<longrightarrow> recorded f k = Some ''timeout'')"
       "\<forall>a g b k. tr = a @ (WaitForNewFile k, g) # b
               \<longrightarrow> list_all (\<lambda>x. outcome_in (snd x) k) b"
    by (elim exE conjE) (rule that; assumption)
  from t(1) have "tr = trace (final_state (execute_commands (demo_world True) demo_context
      demo_plan initial_state))"
    by (simp add: initial_state_def)
  then have ev: "map fst tr
     = [LedgerWrite 0 ''pending'', LedgerWrite 1 ''pending'', LedgerWrite 2 ''pending'',
        OpenResource, TakeSnapshot,
        StatusLabel ''Acquiring: 500nm #1 (1/3)'', DeviceWrite ''gowave 500'', Sleep 5,
        SendTrigger, WaitForNewFile 0, LedgerWrite 0 ''completed'',
        StatusLabel ''Completed: 500nm #1 -> new.bin'',
        StatusLabel ''Acquiring: 500nm #2 (2/3)'', DeviceWrite ''gowave 500'', Sleep 5,
        SendTrigger, WaitForNewFile 1, LedgerWrite 1 ''timeout'', AskYesNo 1,
        StatusLabel ''Acquiring: 600nm #1 (3/3)'', DeviceWrite ''gowave 600'', Sleep 5,
        SendTrigger, WaitForNewFile 2, LedgerWrite 2 ''completed'',
        StatusLabel ''Completed: 600nm #1 -> new.bin'',
        EnableProcessButton, StatusLabel ''Acquisition complete!'']"
    by (simp only: demo_run_trace)
  have "AskYesNo 1 \<in> set (map fst tr)"
    unfolding ev by simp
  then obtain f1 where f1: "(AskYesNo 1, f1) \<in> set tr"
    by auto
  with t(4) have a: "recorded f1 1 = Some ''timeout''"
    by blast
  have "LedgerWrite 0 ''completed'' \<in> set (map fst tr)"
    unfolding ev by simp
  then obtain f2 where f2: "(LedgerWrite 0 ''completed'', f2) \<in> set tr"
    by auto
  with t(4) have b: "recorded f2 0 = Some ''completed''"
    by blast
  have "WaitForNewFile 0 \<in> set (map fst tr)"
    unfolding ev by simp
  then obtain g where "(WaitForNewFile 0, g) \<in> set tr"
    by auto
  then obtain a' b' where sp: "tr = a' @ (WaitForNewFile 0, g) # b'"
    by (auto dest: split_list)
  with t(5) have c: "list_all (\<lambda>x. outcome_in (snd x) 0) b'"
    by blast
  have "b' \<noteq> []"
  proof
    assume "b' = []"
    with sp have "last (map fst tr) = WaitForNewFile 0"
      by simp
    then show False
      unfolding ev by simp
  qed
  with t(1,2,3) f1 a f2 b sp c show ?thesis
    by (intro exI [of _ tr] conjI exI [of _ f1] exI [of _ f2] exI [of _ a'] exI [of _ g]
        exI [of _ b'])
qed

section \<open>Loading incomplete acquisitions\<close>

lemma dict_lookup_nth:
  assumes "distinct fs" "p < length fs"
  shows "dict_lookup fs r (fs ! p) = Some (if p < length r then Some (r ! p) else None)"
  using assms
proof (induction fs arbitrary: r p)
  case Nil
  then show ?case by simp
next
  case (Cons f fs)
  show ?case
  proof (cases p)
    case 0
    from Cons.prems(1) have "f \<notin> set fs"
      by simp
    then have "dict_lookup fs r f = None" for r
    proof (induction fs arbitrary: r)
      case Nil
      show ?case by simp
    next
      case (Cons g gs)
      then show ?case by (auto split: option.splits)
    qed
    with 0 show ?thesis
      by (cases r) simp_all
  next
    case (Suc q)
    with Cons.prems have "distinct fs" "q < length fs"
      by simp_all
    from Cons.IH [OF this, of "tl r"] Suc show ?thesis
      by (cases r) simp_all
  qed
qed

lemma lookup_status:
  "dict_lookup header r ''Status'' = Some (if 5 < length r then Some (r ! 5) else None)"
  using dict_lookup_nth [of header 5 r] by (simp add: header_def)

lemma lookup_wavelength:
  "dict_lookup header r ''Wavelength'' = Some (if 1 < length r then Some (r ! 1) else None)"
  using dict_lookup_nth [of header 1 r] by (simp add: header_def)

lemma increment_keys: "fst ` set (increment k d) = insert k (fst ` set d)"
  by (induction k d rule: increment.induct) auto

lemma increment_distinct: "distinct (map fst d) \<Longrightarrow> distinct (map fst (increment k d))"
  by (induction k d rule: increment.induct) (auto simp: increment_keys)

lemma increment_positive: "\<forall>(k, n) \<in> set d. 0 < n \<Longrightarrow> \<forall>(k, n) \<in> set (increment k' d). 0 < n"
  by (induction k' d rule: increment.induct) auto

lemma increment_count:
  "count_of (increment k d) k' = count_of d k' + (if k' = k then 1 else 0)"
  by (induction k d rule: increment.induct) (auto simp: count_of_def)


lemma count_rows_header:
  assumes "distinct (map fst d0)" "\<forall>(k, n) \<in> set d0. 0 < n"
  shows "\<exists>d. count_rows header body d0 = Inr d \<and> distinct (map fst d)
           \<and> (\<forall>(k, n) \<in> set d. 0 < n)
           \<and> (\<forall>k. count_of d k = count_of d0 k + incomplete_count body k)"
  using assms
proof (induction body arbitrary: d0)
  case Nil
  then show ?case
    by (simp add: incomplete_count_def incomplete_def)
next
  case (Cons r body)
  show ?case
  proof (cases "5 < length r \<and> r ! 5 \<in> set incomplete_statuses")
    case False
    then have "count_rows header (r # body) d0 = count_rows header body d0"
      by (auto simp: lookup_status)
    moreover from False have "incomplete_count (r # body) k = incomplete_count body k" for k
      by (auto simp: incomplete_count_def incomplete_def)
    ultimately show ?thesis
      using Cons.IH [OF Cons.prems] by simp
  next
    case True
    then have "count_rows header (r # body) d0
        = count_rows header body (increment (Some (r ! 1)) d0)"
      by (auto simp: lookup_status lookup_wavelength)
    moreover from True have "incomplete_count (r # body) k
        = (if Some (r ! 1) = k then 1 else 0) + incomplete_count body k" for k
      by (simp add: incomplete_count_def incomplete_def)
    moreover from Cons.IH [OF increment_distinct [OF Cons.prems(1), of "Some (r ! 1)"]
        increment_positive [OF Cons.prems(2), of "Some (r ! 1)"]]
    obtain d where
      "count_rows header body (increment (Some (r ! 1)) d0) = Inr d" "distinct (map fst d)"
      "\<forall>(k, n) \<in> set d. 0 < n"
      "\<forall>k. count_of d k = count_of (increment (Some (r ! 1)) d0) k + incomplete_count body k"
      by (elim exE conjE) (rule that; assumption)
    ultimately show ?thesis
      by (intro exI [of _ d]) (auto simp: increment_count)
  qed
qed

lemma count_of_positive:
  assumes "distinct (map fst d)" "\<forall>(k, n) \<in> set d. 0 < n"
  shows "map_of d k = (if count_of d k = 0 then None else Some (count_of d k))"
proof (cases "map_of d k")
  case None
  then show ?thesis by (simp add: count_of_def)
next
  case (Some n)
  then have "(k, n) \<in> set d"
    by (rule map_of_SomeD)
  with assms(2) Some show ?thesis
    by (auto simp: count_of_def)
qed

text \<open>
  C5. On a ledger file with its header row, \<^verbatim>\<open>load_acquisition_from_csv\<close> raises nothing
  and counts exactly the data rows whose status cell is pending, timeout or cancelled: the
  dictionary has one entry per wavelength that occurs among these rows, holding their number,
  and no other entry; rows with any other status, completed among them, are not counted. With
  no such row the outcome is the message that nothing is incomplete.
\<close>

theorem load_incomplete_counts:
  "\<exists>d. count_rows header body [] = Inr d
       \<and> load_acquisition_from_csv (Some (Some (header # body)))
           = (if incomplete body = [] then NothingIncomplete else Loaded d)
       \<and> distinct (map fst d)
       \<and> (\<forall>k. map_of d k
             = (if incomplete_count body k = 0 then None else Some (incomplete_count body k)))"
proof -
  have e: "distinct (map fst ([] :: wavelength_dict))" "\<forall>(k, n) \<in> set ([] :: wavelength_dict). 0 < n"
    by simp_all
  from count_rows_header [OF e, of body] obtain d where
    d: "count_rows header body [] = Inr d" "distinct (map fst d)" "\<forall>(k, n) \<in> set d. 0 < n"
       "\<forall>k. count_of d k = count_of [] k + incomplete_count body k"
    by (elim exE conjE) (rule that; assumption)
  then have c: "count_of d k = incomplete_count body k" for k
    by (simp add: count_of_def)
  have m: "map_of d k = (if incomplete_count body k = 0 then None else Some (incomplete_count body k))"
    for k
    using count_of_positive [OF d(2,3), of k] by (simp add: c)
  have "d = [] \<longleftrightarrow> incomplete body = []"
  proof
    assume "d = []"
    then have z: "incomplete_count body k = 0" for k
      using c [of k] by (simp add: count_of_def)
    show "incomplete body = []"
    proof (rule ccontr)
      assume "incomplete body \<noteq> []"
      then obtain r rs where "incomplete body = r # rs"
        by (cases "incomplete body") auto
      then have "incomplete_count body (Some (r ! 1)) \<noteq> 0"
        by (simp add: incomplete_count_def)
      with z show False by simp
    qed
  next
    assume "incomplete body = []"
    then have n: "map_of d k = None" for k
      by (simp add: m incomplete_count_def)
    show "d = []"
    proof (cases d)
      case Nil
      then show ?thesis .
    next
      case (Cons x xs)
      with n [of "fst x"] show ?thesis
        by (cases x) simp
    qed
  qed
  with d(1,2) m show ?thesis
    by (intro exI [of _ d]) (simp add: load_acquisition_from_csv_def)
qed


theorem load_incomplete_counts_witness:
  "load_acquisition_from_csv (Some (Some [header,
       ledger_row 0 ''500'' 1 ''p_500_1'' ''a.bin'' ''completed'' ''t'' 12,
       ledger_row 1 ''500'' 2 ''p_500_2'' [] ''pending'' ''t'' 0,
       ledger_row 2 ''600'' 1 ''p_600_1'' [] ''timeout'' ''t'' 0,
       ledger_row 3 ''600'' 2 ''p_600_2'' [] ''cancelled'' ''t'' 0]))
     = Loaded [(Some ''500'', 1), (Some ''600'', 2)]
   \<and> incomplete_count [ledger_row 0 ''500'' 1 ''p_500_1'' ''a.bin'' ''completed'' ''t'' 12,
       ledger_row 1 ''500'' 2 ''p_500_2'' [] ''pending'' ''t'' 0,
       ledger_row 2 ''600'' 1 ''p_600_1'' [] ''timeout'' ''t'' 0,
       ledger_row 3 ''600'' 2 ''p_600_2'' [] ''cancelled'' ''t'' 0] (Some ''500'') = 1
   \<and> incomplete_count [ledger_row 0 ''500'' 1 ''p_500_1'' ''a.bin'' ''completed'' ''t'' 12,
       ledger_row 1 ''500'' 2 ''p_500_2'' [] ''pending'' ''t'' 0,
       ledger_row 2 ''600'' 1 ''p_600_1'' [] ''timeout'' ''t'' 0,
       ledger_row 3 ''600'' 2 ''p_600_2'' [] ''cancelled'' ''t'' 0] (Some ''600'') = 2"
proof -
  let ?body = "[ledger_row 0 ''500'' 1 ''p_500_1'' ''a.bin'' ''completed'' ''t'' 12,
       ledger_row 1 ''500'' 2 ''p_500_2'' [] ''pending'' ''t'' 0,
       ledger_row 2 ''600'' 1 ''p_600_1'' [] ''timeout'' ''t'' 0,
       ledger_row 3 ''600'' 2 ''p_600_2'' [] ''cancelled'' ''t'' 0]"
  have c: "count_rows header ?body [] = Inr [(Some ''500'', 1), (Some ''600'', 2)]"
    by code_simp
  have i: "incomplete ?body \<noteq> []"
    by code_simp
  from load_incomplete_counts [of ?body] obtain d where
    d: "count_rows header ?body [] = Inr d"
       "load_acquisition_from_csv (Some (Some (header # ?body)))
          = (if incomplete ?body = [] then NothingIncomplete else Loaded d)"
       "\<forall>k. map_of d k
          = (if incomplete_count ?body k = 0 then None else Some (incomplete_count ?body k))"
    by (elim exE conjE) (rule that; assumption)
  from d(1) c have e: "d = [(Some ''500'', 1), (Some ''600'', 2)]"
    by simp
  from d(3) [rule_format, of "Some ''500''"] d(3) [rule_format, of "Some ''600''"]
  have "incomplete_count ?body (Some ''500'') = 1" "incomplete_count ?body (Some ''600'') = 2"
    unfolding e by (simp_all split: if_splits)
  with d(2) i e show ?thesis
    by simp
qed

section \<open>Combining cubes\<close>

lemma shape_add_cubes [simp]: "shape (add_cubes a b) = shape a"
  by (simp add: add_cubes_def)

lemma iadd_length [simp]: "length (iadd t src st) = length st"
  by (simp add: iadd_def)

lemma iadd_shape [simp]: "shape (iadd t src st ! k) = shape (st ! k)"
proof (cases "k = t \<and> t < length st")
  case True
  then show ?thesis by (simp add: iadd_def)
next
  case False
  show ?thesis
  proof (cases "t < length st")
    case True
    with False show ?thesis by (simp add: iadd_def)
  next
    case False
    then have "st[t := add_cubes (st ! t) (st ! src)] = st"
      by (simp add: list_update_beyond)
    then show ?thesis by (simp add: iadd_def)
  qed
qed

lemma iadd_other: "k \<noteq> t \<Longrightarrow> iadd t src st ! k = st ! k"
  by (simp add: iadd_def)

lemma iadd_take: "n \<le> t \<Longrightarrow> take n (iadd t src st) = take n st"
  by (simp add: iadd_def)





lemma average_loop_frame:
  assumes "n \<le> length (store s)" "case acc of None \<Rightarrow> True | Some (c, md) \<Rightarrow> n \<le> c"
  shows "case average_loop idxs acc cnt s of
           Inl (e, s') \<Rightarrow> take n (store s') = take n (store s) \<and> outputs s' = outputs s
         | Inr (acc', cnt', s') \<Rightarrow> take n (store s') = take n (store s) \<and> outputs s' = outputs s"
  using assms
proof (induction idxs arbitrary: acc cnt s)
  case Nil
  then show ?case by simp
next
  case (Cons idx idxs)
  show ?case
  proof (cases "idx < length (loaded_cubes s)")
    case False
    then show ?thesis by simp
  next
    case v: True
    let ?r = "cube_ref (loaded_cubes s ! idx)"
    show ?thesis
    proof (cases acc)
      case None
      let ?s1 = "s\<lparr>store := store s @ [store s ! ?r]\<rparr>"
      have "n \<le> length (store ?s1)"
        using Cons.prems(1) by simp
      moreover have "case Some (length (store s), cube_metadata (loaded_cubes s ! idx)) of
          None \<Rightarrow> True | Some (c, md) \<Rightarrow> n \<le> c"
        using Cons.prems(1) by simp
      ultimately have "case average_loop idxs
            (Some (length (store s), cube_metadata (loaded_cubes s ! idx))) (cnt + 1) ?s1 of
           Inl (e, s') \<Rightarrow> take n (store s') = take n (store ?s1) \<and> outputs s' = outputs ?s1
         | Inr (acc', cnt', s') \<Rightarrow> take n (store s') = take n (store ?s1) \<and> outputs s' = outputs ?s1"
        by (rule Cons.IH)
      with None v Cons.prems(1) show ?thesis
        by (auto split: sum.splits prod.splits)
    next
      case (Some a)
      obtain c md where a: "a = (c, md)"
        by (cases a)
      with Some Cons.prems(2) have c: "n \<le> c"
        by simp
      show ?thesis
      proof (cases "shape (store s ! c) = shape (store s ! ?r)")
        case False
        with Some a v show ?thesis by simp
      next
        case True
        let ?s1 = "s\<lparr>store := iadd c ?r (store s)\<rparr>"
        have "n \<le> length (store ?s1)"
          using Cons.prems(1) by simp
        moreover have "case acc of None \<Rightarrow> True | Some (c, md) \<Rightarrow> n \<le> c"
          by (rule Cons.prems(2))
        ultimately have "case average_loop idxs acc (cnt + 1) ?s1 of
             Inl (e, s') \<Rightarrow> take n (store s') = take n (store ?s1) \<and> outputs s' = outputs ?s1
           | Inr (acc', cnt', s') \<Rightarrow> take n (store s') = take n (store ?s1) \<and> outputs s' = outputs ?s1"
          by (rule Cons.IH)
        with Some a v True c show ?thesis
          by (auto simp: iadd_take split: sum.splits prod.splits)
      qed
    qed
  qed
qed



text \<open>
  Averaging leaves every array that was in the store as it was: the accumulator is a copy.
\<close>

lemma average_keeps_inputs:
  "take (length (store s))
     (store (case average_selected_cubes s of Inl (e, s') \<Rightarrow> s' | Inr s' \<Rightarrow> s')) = store s"
proof (cases "selected_images s = []")
  case True
  then show ?thesis
    by (simp add: average_selected_cubes_def)
next
  case False
  note frame = average_loop_frame [of "length (store s)" s None "selected_images s" 0]
  show ?thesis
  proof (cases "average_loop (selected_images s) None 0 s")
    case (Inl x)
    obtain e s' where x: "x = (e, s')"
      by (cases x)
    from frame Inl x have "take (length (store s)) (store s') = store s"
      by simp
    with False Inl x show ?thesis
      by (simp add: average_selected_cubes_def)
  next
    case (Inr y)
    obtain acc' cnt' s' where y: "y = (acc', cnt', s')"
      by (cases y)
    from frame Inr y have t: "take (length (store s)) (store s') = store s"
      by simp
    then have le: "length (store s) \<le> length (store s')"
      by (metis length_take min.cobounded1)
    show ?thesis
    proof (cases acc')
      case None
      with False Inr y t show ?thesis
        by (simp add: average_selected_cubes_def)
    next
      case (Some a)
      obtain c md where "a = (c, md)"
        by (cases a)
      with Some False Inr y t le show ?thesis
        by (simp add: average_selected_cubes_def)
    qed
  qed
qed











lemma map2_same: "map2 f (map g xs) xs = map (\<lambda>v. f (g v) v) xs"
  by (induction xs) simp_all

lemma add_scaled:
  "add_cubes (x\<lparr>cells := map (\<lambda>v. v * real m) (cells x)\<rparr>) x
     = x\<lparr>cells := map (\<lambda>v. v * real (Suc m)) (cells x)\<rparr>"
  by (simp add: add_cubes_def map2_same algebra_simps)

lemma divide_scaled:
  "0 < k \<Longrightarrow> divide_cube (x\<lparr>cells := map (\<lambda>v. v * real k) (cells x)\<rparr>) k = x"
  by (simp add: divide_cube_def comp_def)

lemma average_loop_equal:
  assumes "\<forall>i \<in> set rest. i < length (loaded_cubes s) \<and> cube_ref (loaded_cubes s ! i) < c
             \<and> store s ! cube_ref (loaded_cubes s ! i) = x"
    and "c < length (store s)" "store s ! c = x\<lparr>cells := map (\<lambda>v. v * real m) (cells x)\<rparr>"
  shows "\<exists>st'. average_loop rest (Some (c, md)) cnt s
             = Inr (Some (c, md), cnt + length rest, s\<lparr>store := st'\<rparr>)
           \<and> length st' = length (store s) \<and> take c st' = take c (store s)
           \<and> st' ! c = x\<lparr>cells := map (\<lambda>v. v * real (m + length rest)) (cells x)\<rparr>"
  using assms
proof (induction rest arbitrary: s cnt m)
  case Nil
  then show ?case
    by (intro exI [of _ "store s"]) simp
next
  case (Cons i rest)
  let ?r = "cube_ref (loaded_cubes s ! i)"
  from Cons.prems(1) have i: "i < length (loaded_cubes s)" "?r < c" "store s ! ?r = x"
    by simp_all
  let ?st1 = "iadd c ?r (store s)"
  let ?s1 = "s\<lparr>store := ?st1\<rparr>"
  have c1: "?st1 ! c = x\<lparr>cells := map (\<lambda>v. v * real (Suc m)) (cells x)\<rparr>"
    using Cons.prems(2,3) i(3) by (simp add: iadd_def add_scaled)
  have o: "?st1 ! k = store s ! k" if "k \<noteq> c" for k
    using that by (rule iadd_other)
  have "\<forall>j \<in> set rest. j < length (loaded_cubes ?s1) \<and> cube_ref (loaded_cubes ?s1 ! j) < c
             \<and> store ?s1 ! cube_ref (loaded_cubes ?s1 ! j) = x"
  proof
    fix j assume j: "j \<in> set rest"
    with Cons.prems(1) have "j < length (loaded_cubes s)" "cube_ref (loaded_cubes s ! j) < c"
      "store s ! cube_ref (loaded_cubes s ! j) = x"
      by simp_all
    moreover from this have "?st1 ! cube_ref (loaded_cubes s ! j) = store s ! cube_ref (loaded_cubes s ! j)"
      by (intro o) simp
    ultimately show "j < length (loaded_cubes ?s1) \<and> cube_ref (loaded_cubes ?s1 ! j) < c
             \<and> store ?s1 ! cube_ref (loaded_cubes ?s1 ! j) = x"
      by simp
  qed
  moreover have "c < length (store ?s1)"
    using Cons.prems(2) by simp
  moreover have "store ?s1 ! c = x\<lparr>cells := map (\<lambda>v. v * real (Suc m)) (cells x)\<rparr>"
    using c1 by simp
  ultimately obtain st' where
    r: "average_loop rest (Some (c, md)) (cnt + 1) ?s1
          = Inr (Some (c, md), cnt + 1 + length rest, ?s1\<lparr>store := st'\<rparr>)"
       "length st' = length (store ?s1)" "take c st' = take c (store ?s1)"
       "st' ! c = x\<lparr>cells := map (\<lambda>v. v * real (Suc m + length rest)) (cells x)\<rparr>"
    using Cons.IH [of ?s1 "Suc m" "cnt + 1"] by blast
  have sh: "shape (store s ! c) = shape (store s ! ?r)"
    using Cons.prems(3) i(3) by simp
  have "average_loop (i # rest) (Some (c, md)) cnt s
          = Inr (Some (c, md), cnt + length (i # rest), s\<lparr>store := st'\<rparr>)"
    using r(1) i(1) sh by simp
  moreover have "take c st' = take c (store s)"
    using r(3) by (simp add: iadd_take)
  ultimately show ?case
    using r(2,4) by (intro exI [of _ st']) simp
qed

text \<open>
  With real-valued cells, averaging \<open>k\<close> selected cubes that all equal \<open>x\<close> writes \<open>x\<close>
  itself: the sum is divided by \<open>k\<close> in the field of the cells, not by integer division.
\<close>

lemma average_of_equal_cubes:
  assumes "valid_selection s" "selected_images s \<noteq> []"
    and "\<forall>i \<in> set (selected_images s). store s ! cube_ref (loaded_cubes s ! i) = x"
  shows "\<exists>s'. average_selected_cubes s = Inr s' \<and> last (store s') = x
           \<and> take (length (store s)) (store s') = store s
           \<and> (\<exists>r md. outputs s' = outputs s @ [SavedRGB averaged_rgb_image x,
                                                Popup averaged_rgb_image r md])"
proof -
  from assms(2) obtain i rest where sel: "selected_images s = i # rest"
    by (cases "selected_images s") auto
  let ?r = "cube_ref (loaded_cubes s ! i)"
  let ?md = "cube_metadata (loaded_cubes s ! i)"
  let ?c = "length (store s)"
  let ?s1 = "s\<lparr>store := store s @ [store s ! ?r]\<rparr>"
  from assms(1,3) sel have v: "i < length (loaded_cubes s)" "store s ! ?r = x"
    "\<forall>j \<in> set rest. j < length (loaded_cubes s) \<and> cube_ref (loaded_cubes s ! j) < ?c
       \<and> store s ! cube_ref (loaded_cubes s ! j) = x"
    by (simp_all add: valid_selection_def)
  have "\<forall>j \<in> set rest. j < length (loaded_cubes ?s1) \<and> cube_ref (loaded_cubes ?s1 ! j) < ?c
       \<and> store ?s1 ! cube_ref (loaded_cubes ?s1 ! j) = x"
    using v(3) by (simp add: nth_append)
  moreover have "?c < length (store ?s1)"
    by simp
  moreover have "store ?s1 ! ?c = x\<lparr>cells := map (\<lambda>v. v * real 1) (cells x)\<rparr>"
    using v(2) by simp
  ultimately obtain st' where
    r: "average_loop rest (Some (?c, ?md)) 1 ?s1
          = Inr (Some (?c, ?md), 1 + length rest, ?s1\<lparr>store := st'\<rparr>)"
       "length st' = length (store ?s1)" "take ?c st' = take ?c (store ?s1)"
       "st' ! ?c = x\<lparr>cells := map (\<lambda>v. v * real (1 + length rest)) (cells x)\<rparr>"
    using average_loop_equal [of rest ?s1 ?c x 1 ?md 1] by blast
  let ?s' = "s\<lparr>store := st' @ [x],
               outputs := outputs s @ [SavedRGB averaged_rgb_image x,
                                       Popup averaged_rgb_image (length st') ?md]\<rparr>"
  have d: "divide_cube (st' ! ?c) (1 + length rest) = x"
    unfolding r(4) by (rule divide_scaled) simp
  have "average_selected_cubes s = Inr ?s'"
    using sel v(1) r(1) d by (simp add: average_selected_cubes_def)
  moreover have "take ?c (st' @ [x]) = store s"
    using r(2,3) by simp
  ultimately show ?thesis
    by (intro exI [of _ ?s']) simp
qed




text \<open>
  C8 at two selected cubes of one shape: after \<^verbatim>\<open>sum_selected_cubes\<close> the first selected
  array, still referred to by \<^verbatim>\<open>loaded_cubes\<close>, holds the sum and no longer its own values.
\<close>

theorem sum_overwrites_first_selected_cube:
  "store two_selected ! cube_ref (loaded_cubes two_selected ! 0) = cube_a
   \<and> sum_selected_cubes two_selected
       = Inr (two_selected
               \<lparr>store := [cube_a\<lparr>cells := replicate 30 3\<rparr>, cube_b, cube_c],
                outputs := [SavedRGB summed_rgb_image (cube_a\<lparr>cells := replicate 30 3\<rparr>),
                            Popup summed_rgb_image 0 ''meta a'']\<rparr>)
   \<and> cube_a\<lparr>cells := replicate 30 3\<rparr> \<noteq> cube_a"
  by code_simp

section \<open>The resume path cannot run\<close>

lemma undefined_names:
  "''check_previous_acquisition'' \<notin> set module_globals"
  "''resume_from_log'' \<notin> set module_globals"
  "''monitor_raw_files'' \<notin> set module_globals"
  by code_simp+

text \<open>
  C10. Once the operator has chosen a folder, \<^verbatim>\<open>resume_acquisition\<close> raises
  \<^verbatim>\<open>NameError\<close> at its call of \<^verbatim>\<open>check_previous_acquisition\<close>, whatever the world
  answers: that name, \<^verbatim>\<open>resume_from_log\<close> and \<^verbatim>\<open>monitor_raw_files\<close> are bound nowhere
  in the module. \<^verbatim>\<open>execute_resumed_commands\<close>, called with a raw data folder set, raises at
  \<^verbatim>\<open>monitor_raw_files\<close> before any device command. So the only way \<^verbatim>\<open>resume_acquisition\<close>
  returns is the cancelled folder dialog.
\<close>

theorem resume_raises_name_error:
  "''check_previous_acquisition'' \<notin> set module_globals
   \<and> ''resume_from_log'' \<notin> set module_globals
   \<and> ''monitor_raw_files'' \<notin> set module_globals
   \<and> (chosen_folder w \<noteq> [] \<longrightarrow>
        resume_acquisition w raw_folder entries = Inl (NameError ''check_previous_acquisition''))
   \<and> (raw_folder \<noteq> [] \<longrightarrow>
        execute_resumed_commands raw_folder entries = Inl (NameError ''monitor_raw_files''))
   \<and> (\<forall>outcome. resume_acquisition w raw_folder entries = Inr outcome \<longrightarrow> outcome = NoFolderChosen)"
proof -
  have r: "chosen_folder w \<noteq> [] \<Longrightarrow>
      resume_acquisition w raw_folder entries = Inl (NameError ''check_previous_acquisition'')"
    using undefined_names(1) by (simp add: resume_acquisition_def call_global_def)
  have e: "raw_folder \<noteq> [] \<Longrightarrow>
      execute_resumed_commands raw_folder entries = Inl (NameError ''monitor_raw_files'')"
    using undefined_names(3) by (simp add: execute_resumed_commands_def call_global_def)
  have o: "outcome = NoFolderChosen" if "resume_acquisition w raw_folder entries = Inr outcome"
    for outcome
  proof (cases "chosen_folder w = []")
    case True
    with that show ?thesis by (simp add: resume_acquisition_def)
  next
    case False
    with r that show ?thesis by simp
  qed
  from undefined_names r e o show ?thesis
    by blast
qed

theorem resume_raises_name_error_witness:
  "chosen_folder demo_resume \<noteq> []
   \<and> resume_acquisition demo_resume ''raw'' [] = Inl (NameError ''check_previous_acquisition'')
   \<and> execute_resumed_commands ''raw'' [] = Inl (NameError ''monitor_raw_files'')"
proof -
  have h: "chosen_folder demo_resume \<noteq> []" "''raw'' \<noteq> []"
    by (simp_all add: demo_resume_def)
  with resume_raises_name_error [of demo_resume "''raw''" "[]"] show ?thesis
    by blast
qed

end
